theory Spec2Isabelle
  imports Main
begin

section \<open>Python values used by the vending machine\<close>

text \<open>
  Exceptions the modelled code can raise. \<open>Empty\<close> is \<open>queue.Empty\<close>, \<open>MachineError\<close> is
  \<open>transitions.core.MachineError\<close>, \<open>RecursionError\<close> is Python's bound on nested calls.
\<close>

datatype py_error =
    ValueError
  | RuntimeError
  | ZeroDivisionError
  | KeyError
  | TypeError
  | AssertionError
  | MachineError
  | Empty
  | RecursionError

text \<open>
  A Python \<open>dict\<close> is an insertion-ordered association list with distinct keys
  (\<open>dict_ok\<close>). \<open>dict_set\<close> is \<open>d[k] = v\<close>: an existing key keeps its position, a new key
  goes to the end; on a list that repeats the key, which is no dict, every entry of the key
  is overwritten. \<open>dict_get\<close> is \<open>d.get(k)\<close>.
\<close>

type_synonym ('k, 'v) dict = "('k \<times> 'v) list"

definition dict_ok :: "('k, 'v) dict \<Rightarrow> bool" where
  "dict_ok d = distinct (map fst d)"

definition dict_get :: "('k, 'v) dict \<Rightarrow> 'k \<Rightarrow> 'v option" where
  "dict_get d k = map_of d k"

definition dict_set :: "'k \<Rightarrow> 'v \<Rightarrow> ('k, 'v) dict \<Rightarrow> ('k, 'v) dict" where
  "dict_set k v d =
     (if k \<in> fst ` set d then map (\<lambda>(k', v'). if k' = k then (k', v) else (k', v')) d
      else d @ [(k, v)])"

text \<open>
  A \<open>defaultdict\<close> with default \<open>dflt\<close>: reading \<open>d[k]\<close> gives \<open>dict_default dflt d k\<close>
  and, when the key is missing, first inserts it with the default (\<open>dict_touch\<close>).
\<close>

definition dict_default :: "'v \<Rightarrow> ('k, 'v) dict \<Rightarrow> 'k \<Rightarrow> 'v" where
  "dict_default dflt d k = (case map_of d k of None \<Rightarrow> dflt | Some v \<Rightarrow> v)"

definition dict_touch :: "'v \<Rightarrow> 'k \<Rightarrow> ('k, 'v) dict \<Rightarrow> ('k, 'v) dict" where
  "dict_touch dflt k d = (if k \<in> fst ` set d then d else d @ [(k, dflt)])"

text \<open>\<open>a | b\<close> on dicts: the entries of \<open>a\<close>, overwritten and then extended by those of \<open>b\<close>.\<close>

definition dict_union :: "('k, 'v) dict \<Rightarrow> ('k, 'v) dict \<Rightarrow> ('k, 'v) dict" where
  "dict_union a b = fold (\<lambda>(k, v). dict_set k v) b a"

section \<open>payments.py\<close>

text \<open>
  A \<open>Denomination\<close> object is identified with its \<open>value\<close>: equality, hash and order
  are by value. \<open>Denomination\<close> below is \<open>Denomination.__init__\<close>, the only way to build one.
\<close>

type_synonym denomination = int

definition Denomination :: "int \<Rightarrow> py_error + denomination" where
  "Denomination v = (if v < 0 \<or> (v > 100 \<and> v mod 100 \<noteq> 0) then Inl ValueError else Inr v)"

record MonetaryInventory =
  inventory :: "(denomination, int) dict"
  supported_denominantions :: "denomination list"

definition default_supported_denominantions :: "denomination list" where
  "default_supported_denominantions = [200, 100, 50, 20, 10, 5, 2, 1]"

record ChangeConfiguration =
  owed :: int
  configuration :: "(denomination, int) dict"

definition is_exact :: "ChangeConfiguration \<Rightarrow> bool" where
  "is_exact c = (owed c = 0)"

text \<open>\<open>sys.maxsize\<close> of CPython on a 64-bit platform.\<close>

definition sys_maxsize :: int where
  "sys_maxsize = 2 ^ 63 - 1"

text \<open>
  \<open>sorted([k for k, v in change.items() if v > 0], reverse=True)\<close>
\<close>

definition denominations_of :: "(int, int) dict \<Rightarrow> int list" where
  "denominations_of change = rev (sort (map fst (filter (\<lambda>(k, v). v > 0) change)))"

text \<open>
  The state of the two nested \<open>for\<close> loops of \<open>backtrack_best_change\<close>: still running with
  the current \<open>best_solution\<close> and \<open>lowest_owed\<close>, left by \<open>return\<close>, or left by an exception.
\<close>

datatype scan =
    Running "(int, int) dict option" int
  | Returned "(int, int) dict option \<times> int"
  | Raised py_error

text \<open>
  The interpreter bounds the depth of nested calls and raises \<open>RecursionError\<close> beyond it:
  \<open>sys.getrecursionlimit()\<close>, 1000 by default. The frames that are on the stack already when
  the change search starts, and those of its logging calls, depend on the caller and are
  not counted, so the code runs out of frames a little before this bound does.
\<close>

definition recursion_limit :: nat where
  "recursion_limit = 1000"

text \<open>
  \<open>backtrack_best_change\<close>. The first argument is the number of nested calls of the
  function the interpreter still allows; every call of the function on itself uses one
  up, and a call with none left raises \<open>RecursionError\<close>. The outer \<open>fold\<close> is the loop over
  \<open>denominations\<close>, the inner one the loop over
  \<open>reversed(range(1, max_number_of_monetary_units + 1))\<close>; an iteration that finds the loop
  already left does nothing. \<open>owed // denomination\<close> raises on a zero denomination, and
  \<open>change[denomination]\<close> on a plain \<open>dict\<close> raises on a missing key.
\<close>

function backtrack_best_change ::
  "nat \<Rightarrow> int \<Rightarrow> (int, int) dict \<Rightarrow> (int, int) dict option \<Rightarrow> (int, int) dict option \<Rightarrow> int
   \<Rightarrow> py_error + ((int, int) dict option \<times> int)" where
  "backtrack_best_change 0 owing change current_solution best_solution lowest_owed =
     Inl RecursionError"
| "backtrack_best_change (Suc frames) owing change current_solution best_solution lowest_owed =
     (let current = (case current_solution of None \<Rightarrow> [] | Some s \<Rightarrow> s);
          best = (if owing < lowest_owed then Some current else best_solution);
          lowest = (if owing < lowest_owed then owing else lowest_owed)
      in if owing = 0 then Inr (Some current, 0)
         else
           (case fold
              (\<lambda>denomination st.
                 case st of
                   Running b0 l0 \<Rightarrow>
                     if denomination = 0 then Raised ZeroDivisionError
                     else
                       (case dict_get change denomination of
                          None \<Rightarrow> Raised KeyError
                        | Some available \<Rightarrow>
                            fold
                              (\<lambda>number_of_monetary_units st'.
                                 case st' of
                                   Running b l \<Rightarrow>
                                     (case backtrack_best_change frames
                                             (owing - number_of_monetary_units * denomination)
                                             (dict_set denomination 0 change)
                                             (Some (dict_set denomination number_of_monetary_units current))
                                             b l of
                                        Inl e \<Rightarrow> Raised e
                                      | Inr (new_solution, difference) \<Rightarrow>
                                          if difference = 0 then Returned (new_solution, 0)
                                          else if difference < l then Running new_solution difference
                                          else Running b l)
                                 | Returned r \<Rightarrow> Returned r
                                 | Raised e \<Rightarrow> Raised e)
                              (rev [1 .. min (owing div denomination) available])
                              (Running b0 l0))
                 | Returned r \<Rightarrow> Returned r
                 | Raised e \<Rightarrow> Raised e)
              (denominations_of change)
              (Running best lowest) of
              Running b l \<Rightarrow> Inr (b, l)
            | Returned r \<Rightarrow> Inr r
            | Raised e \<Rightarrow> Inl e))"
  by pat_completeness auto
termination
  by (relation "measure (\<lambda>(frames, owing, change, cur, best, lowest). frames)") auto

text \<open>
  \<open>{Denomination(value): quantity for value, quantity in result.items()}\<close>: every key goes
  through the constructor, which can raise.
\<close>

fun wrap_denominations :: "(int, int) dict \<Rightarrow> py_error + (denomination, int) dict" where
  "wrap_denominations [] = Inr []"
| "wrap_denominations ((v, quantity) # rest) =
     (case Denomination v of
        Inl e \<Rightarrow> Inl e
      | Inr d \<Rightarrow>
          (case wrap_denominations rest of
             Inl e \<Rightarrow> Inl e
           | Inr c \<Rightarrow> Inr ((d, quantity) # c)))"

text \<open>
  \<open>find_optimal_change\<close>. The dict \<open>change\<close> maps each denomination's value to its quantity,
  which here is the inventory itself. \<open>None\<close> is the absent result. The search starts with
  the whole depth the interpreter allows.
\<close>

definition find_optimal_change :: "int \<Rightarrow> MonetaryInventory \<Rightarrow> py_error + ChangeConfiguration option" where
  "find_optimal_change owed_amount monetary_inventory =
     (let change = inventory monetary_inventory
      in case backtrack_best_change recursion_limit owed_amount change None None sys_maxsize of
           Inl e \<Rightarrow> Inl e
         | Inr (None, diff) \<Rightarrow> Inr None
         | Inr (Some result, diff) \<Rightarrow>
             (case wrap_denominations result of
                Inl e \<Rightarrow> Inl e
              | Inr c \<Rightarrow> Inr (Some \<lparr>owed = diff, configuration = c\<rparr>)))"

subsection \<open>MonetaryInventory\<close>

text \<open>
  A method that mutates its object returns the exception raised, if any, and the object as
  the call leaves it: what was written before a \<open>raise\<close> stays written.
\<close>

definition add_monetary_unit :: "denomination \<Rightarrow> MonetaryInventory \<Rightarrow> py_error option \<times> MonetaryInventory" where
  "add_monetary_unit d mi =
     (if d \<notin> set (supported_denominantions mi) then (Some ValueError, mi)
      else (None, mi\<lparr>inventory := dict_set d (dict_default 0 (inventory mi) d + 1) (inventory mi)\<rparr>))"

definition add_cash :: "(denomination, int) dict \<Rightarrow> MonetaryInventory \<Rightarrow> py_error option \<times> MonetaryInventory" where
  "add_cash supply mi =
     (if \<exists>cash \<in> set (map fst supply). cash \<notin> set (supported_denominantions mi)
      then (Some ValueError, mi)
      else (None, mi\<lparr>inventory :=
              fold (\<lambda>(cash, quantity) inv. dict_set cash (dict_default 0 inv cash + quantity) inv)
                supply (inventory mi)\<rparr>))"

text \<open>
  \<open>remove_change\<close>: the loop stops at the first denomination that is short; the decrements
  done before it stay, and so does the key that reading \<open>self.inventory[denomination]\<close> inserted.
\<close>

fun remove_change :: "(denomination, int) dict \<Rightarrow> MonetaryInventory \<Rightarrow> py_error option \<times> MonetaryInventory" where
  "remove_change [] mi = (None, mi)"
| "remove_change ((d, quantity) # rest) mi =
     (let inv = dict_touch 0 d (inventory mi)
      in if dict_default 0 inv d < quantity then (Some RuntimeError, mi\<lparr>inventory := inv\<rparr>)
         else remove_change rest (mi\<lparr>inventory := dict_set d (dict_default 0 inv d - quantity) inv\<rparr>))"

definition available_change :: "MonetaryInventory \<Rightarrow> (denomination, int) dict" where
  "available_change mi = filter (\<lambda>(d, quantity). quantity > 0) (inventory mi)"

text \<open>\<open>MonetaryInventory.__init__\<close>; \<open>None\<close> for the supported list takes the class default.\<close>

definition MonetaryInventory_init ::
  "(denomination, int) dict \<Rightarrow> denomination list option \<Rightarrow> py_error + MonetaryInventory" where
  "MonetaryInventory_init initial_inventory supported =
     (case add_cash initial_inventory
             \<lparr>inventory = [],
              supported_denominantions =
                (case supported of None \<Rightarrow> default_supported_denominantions | Some l \<Rightarrow> l)\<rparr> of
        (Some e, mi) \<Rightarrow> Inl e
      | (None, mi) \<Rightarrow> Inr mi)"

section \<open>products.py\<close>

datatype Product = Product (pid: int)

record ProductInfo =
  name :: string
  price :: int

text \<open>\<open>products\<close> is a \<open>defaultdict\<close> of FIFO queues, a queue being the list of its units, oldest first.\<close>

record Stock =
  products :: "(int, Product list) dict"
  catalogue :: "(int, ProductInfo) dict"

definition add_products :: "Product list \<Rightarrow> Stock \<Rightarrow> Stock" where
  "add_products ps s =
     s\<lparr>products := fold (\<lambda>p q. dict_set (pid p) (dict_default [] q (pid p) @ [p]) q) ps (products s)\<rparr>"

definition Stock_init :: "(int, ProductInfo) dict \<Rightarrow> Product list \<Rightarrow> Stock" where
  "Stock_init cat ps = add_products ps \<lparr>products = [], catalogue = cat\<rparr>"

definition get_product :: "int \<Rightarrow> Stock \<Rightarrow> (py_error + Product) \<times> Stock" where
  "get_product product_id s =
     (let q = dict_touch [] product_id (products s)
      in case dict_default [] q product_id of
           [] \<Rightarrow> (Inl Empty, s\<lparr>products := q\<rparr>)
         | p # rest \<Rightarrow> (Inr p, s\<lparr>products := dict_set product_id rest q\<rparr>))"

definition get_price_of :: "int \<Rightarrow> Stock \<Rightarrow> py_error + int" where
  "get_price_of product_id s =
     (case dict_get (catalogue s) product_id of
        Some info \<Rightarrow> Inr (price info)
      | None \<Rightarrow> Inl RuntimeError)"

text \<open>
  \<open>get_offer\<close> reads \<open>self.products[product_id]\<close> for every catalogue entry, so it returns the
  offer together with the stock in which the missing queues have been created.
\<close>

definition get_offer :: "Stock \<Rightarrow> (int, ProductInfo) dict \<times> Stock" where
  "get_offer s =
     (filter (\<lambda>(product_id, info). dict_default [] (products s) product_id \<noteq> []) (catalogue s),
      s\<lparr>products := fold (\<lambda>(product_id, info). dict_touch [] product_id) (catalogue s) (products s)\<rparr>)"

definition update_catalogue :: "(int, ProductInfo) dict \<Rightarrow> Stock \<Rightarrow> Stock" where
  "update_catalogue new_catalogue s =
     (case get_offer s of (offer, s') \<Rightarrow> s'\<lparr>catalogue := dict_union offer new_catalogue\<rparr>)"

section \<open>The vending machine\<close>

datatype States =
    IDLE
  | MAINTENANCE_MODE
  | PRODUCT_SELECTION
  | COLLECTING_PAYMENT
  | CONFIRM_SMALLER_CHANGE
  | DISPATCHING_PRODUCT
  | RETURNING_CHANGE

text \<open>The calls the \<open>DeliverySystem\<close> collaborator has received, oldest first.\<close>

datatype delivery = dispatch Product | send_cash ChangeConfiguration

record VendingMachine =
  state :: States
  stock :: Stock
  monetary_inventory :: MonetaryInventory
  selected_product :: "int option"
  customer_balance :: int
  is_in_maintenance_mode :: bool
  delivery_system :: "delivery list"

text \<open>
  The keyword arguments of a trigger call, as the callbacks read them with
  \<open>event.kwargs.get(...)\<close>: a key that was not passed reads as \<open>None\<close>.
\<close>

record EventData =
  kw_product_id :: "int option"
  kw_denomination :: "int option"
  kw_supply :: "(denomination, int) dict option"
  kw_products :: "Product list option"

definition no_kwargs :: EventData where
  "no_kwargs = \<lparr>kw_product_id = None, kw_denomination = None, kw_supply = None, kw_products = None\<rparr>"

subsection \<open>Conditions\<close>

definition vm_not_enough_money :: "VendingMachine \<Rightarrow> py_error + bool" where
  "vm_not_enough_money vm =
     (case selected_product vm of
        None \<Rightarrow> Inl AssertionError
      | Some p \<Rightarrow>
          (case get_price_of p (stock vm) of
             Inl e \<Rightarrow> Inl e
           | Inr total_price \<Rightarrow> Inr (total_price > customer_balance vm)))"

definition vm_can_return_exact_change :: "VendingMachine \<Rightarrow> py_error + bool" where
  "vm_can_return_exact_change vm =
     (case selected_product vm of
        None \<Rightarrow> Inl AssertionError
      | Some p \<Rightarrow>
          (case get_price_of p (stock vm) of
             Inl e \<Rightarrow> Inl e
           | Inr total_price \<Rightarrow>
               (case find_optimal_change (customer_balance vm - total_price) (monetary_inventory vm) of
                  Inl e \<Rightarrow> Inl e
                | Inr None \<Rightarrow> Inr False
                | Inr (Some config) \<Rightarrow> Inr (is_exact config))))"

subsection \<open>Actions\<close>

definition vm_select :: "EventData \<Rightarrow> VendingMachine \<Rightarrow> py_error option \<times> VendingMachine" where
  "vm_select event vm = (None, vm\<lparr>selected_product := kw_product_id event\<rparr>)"

text \<open>
  \<open>_insert\<close> adds to the balance first; the constructor of \<open>Denomination\<close> and
  \<open>add_monetary_unit\<close> run after that. Adding \<open>None\<close> to the balance is a \<open>TypeError\<close>.
\<close>

definition vm_insert :: "EventData \<Rightarrow> VendingMachine \<Rightarrow> py_error option \<times> VendingMachine" where
  "vm_insert event vm =
     (case kw_denomination event of
        None \<Rightarrow> (Some TypeError, vm)
      | Some v \<Rightarrow>
          (let vm1 = vm\<lparr>customer_balance := customer_balance vm + v\<rparr>
           in case Denomination v of
                Inl e \<Rightarrow> (Some e, vm1)
              | Inr d \<Rightarrow>
                  (case add_monetary_unit d (monetary_inventory vm1) of
                     (r, mi) \<Rightarrow> (r, vm1\<lparr>monetary_inventory := mi\<rparr>))))"

text \<open>\<open>_cancel\<close> is defined by the class but no transition uses it.\<close>

definition vm_cancel :: "EventData \<Rightarrow> VendingMachine \<Rightarrow> py_error option \<times> VendingMachine" where
  "vm_cancel event vm = (None, vm\<lparr>selected_product := None\<rparr>)"

definition vm_add_products :: "EventData \<Rightarrow> VendingMachine \<Rightarrow> py_error option \<times> VendingMachine" where
  "vm_add_products event vm =
     (let ps = (case kw_products event of None \<Rightarrow> [] | Some l \<Rightarrow> l)
      in (None, vm\<lparr>stock := add_products ps (stock vm)\<rparr>))"

definition vm_reload_change :: "EventData \<Rightarrow> VendingMachine \<Rightarrow> py_error option \<times> VendingMachine" where
  "vm_reload_change event vm =
     (let supply = (case kw_supply event of None \<Rightarrow> [] | Some d \<Rightarrow> d)
      in case add_cash supply (monetary_inventory vm) of
           (r, mi) \<Rightarrow> (r, vm\<lparr>monetary_inventory := mi\<rparr>))"

text \<open>
  \<open>_dispatch_product\<close>. With no product selected the source looks up the key \<open>None\<close>, whose
  fresh queue is empty: \<open>get_nowait\<close> raises \<open>Empty\<close> (the queue created under \<open>None\<close> has
  no place in a dict keyed by product ids and is left out).
\<close>

definition vm_dispatch_product :: "EventData \<Rightarrow> VendingMachine \<Rightarrow> py_error option \<times> VendingMachine" where
  "vm_dispatch_product event vm =
     (case selected_product vm of
        None \<Rightarrow> (Some Empty, vm)
      | Some p \<Rightarrow>
          (case get_product p (stock vm) of
             (Inl e, s) \<Rightarrow> (Some e, vm\<lparr>stock := s\<rparr>)
           | (Inr product, s) \<Rightarrow>
               (None, vm\<lparr>stock := s, selected_product := None,
                          delivery_system := delivery_system vm @ [dispatch product]\<rparr>)))"

definition vm_charge_customer :: "EventData \<Rightarrow> VendingMachine \<Rightarrow> py_error option \<times> VendingMachine" where
  "vm_charge_customer event vm =
     (case selected_product vm of
        None \<Rightarrow> (None, vm)
      | Some p \<Rightarrow>
          (case get_price_of p (stock vm) of
             Inl e \<Rightarrow> (Some e, vm)
           | Inr total_price \<Rightarrow> (None, vm\<lparr>customer_balance := customer_balance vm - total_price\<rparr>)))"

definition vm_return_change :: "EventData \<Rightarrow> VendingMachine \<Rightarrow> py_error option \<times> VendingMachine" where
  "vm_return_change event vm =
     (if customer_balance vm = 0 then (None, vm)
      else
        (case find_optimal_change (customer_balance vm) (monetary_inventory vm) of
           Inl e \<Rightarrow> (Some e, vm)
         | Inr None \<Rightarrow> (None, vm)
         | Inr (Some config) \<Rightarrow>
             if configuration config = [] then (None, vm)
             else
               (case remove_change (configuration config) (monetary_inventory vm) of
                  (Some e, mi) \<Rightarrow> (Some e, vm\<lparr>monetary_inventory := mi\<rparr>)
                | (None, mi) \<Rightarrow>
                    (None, vm\<lparr>monetary_inventory := mi,
                               delivery_system := delivery_system vm @ [send_cash config]\<rparr>))))"

subsection \<open>States and transitions\<close>

datatype trigger =
    Start_maintenance
  | Reload_change
  | Add_products
  | End_maintenance
  | Start
  | Cancel
  | Select
  | Insert
  | Checkout
  | Accept
  | Advance

text \<open>
  An entry of a callback list is a method of the machine or, as a string, the name of a
  trigger, which is then fired on the machine.
\<close>

datatype callback =
    Method "EventData \<Rightarrow> VendingMachine \<Rightarrow> py_error option \<times> VendingMachine"
  | Named trigger

record transition =
  trigger :: trigger
  source :: "States list"
  dest :: States
  conditions :: "(VendingMachine \<Rightarrow> py_error + bool) list"
  before :: "callback list"

definition get_states :: "(States \<times> callback list) list" where
  "get_states =
     [(IDLE, []),
      (MAINTENANCE_MODE, []),
      (PRODUCT_SELECTION, []),
      (COLLECTING_PAYMENT, []),
      (CONFIRM_SMALLER_CHANGE, []),
      (DISPATCHING_PRODUCT, [Method vm_dispatch_product, Named Advance]),
      (RETURNING_CHANGE, [Method vm_return_change, Named Advance])]"

definition get_transitions :: "transition list" where
  "get_transitions =
     [\<lparr>trigger = Start_maintenance, source = [IDLE], dest = MAINTENANCE_MODE,
       conditions = [], before = []\<rparr>,
      \<lparr>trigger = Reload_change, source = [MAINTENANCE_MODE], dest = MAINTENANCE_MODE,
       conditions = [], before = [Method vm_reload_change]\<rparr>,
      \<lparr>trigger = Add_products, source = [MAINTENANCE_MODE], dest = MAINTENANCE_MODE,
       conditions = [], before = [Method vm_add_products]\<rparr>,
      \<lparr>trigger = End_maintenance, source = [MAINTENANCE_MODE], dest = IDLE,
       conditions = [], before = []\<rparr>,
      \<lparr>trigger = Start, source = [IDLE], dest = PRODUCT_SELECTION,
       conditions = [], before = []\<rparr>,
      \<lparr>trigger = Cancel, source = [PRODUCT_SELECTION], dest = IDLE,
       conditions = [], before = []\<rparr>,
      \<lparr>trigger = Select, source = [PRODUCT_SELECTION], dest = COLLECTING_PAYMENT,
       conditions = [], before = [Method vm_select]\<rparr>,
      \<lparr>trigger = Insert, source = [COLLECTING_PAYMENT], dest = COLLECTING_PAYMENT,
       conditions = [], before = [Method vm_insert]\<rparr>,
      \<lparr>trigger = Checkout, source = [COLLECTING_PAYMENT], dest = COLLECTING_PAYMENT,
       conditions = [vm_not_enough_money], before = []\<rparr>,
      \<lparr>trigger = Checkout, source = [COLLECTING_PAYMENT], dest = DISPATCHING_PRODUCT,
       conditions = [vm_can_return_exact_change], before = [Method vm_charge_customer]\<rparr>,
      \<lparr>trigger = Checkout, source = [COLLECTING_PAYMENT], dest = CONFIRM_SMALLER_CHANGE,
       conditions = [], before = []\<rparr>,
      \<lparr>trigger = Accept, source = [CONFIRM_SMALLER_CHANGE], dest = DISPATCHING_PRODUCT,
       conditions = [], before = [Method vm_charge_customer]\<rparr>,
      \<lparr>trigger = Advance, source = [DISPATCHING_PRODUCT], dest = RETURNING_CHANGE,
       conditions = [], before = []\<rparr>,
      \<lparr>trigger = Advance, source = [RETURNING_CHANGE], dest = IDLE,
       conditions = [], before = []\<rparr>,
      \<lparr>trigger = Cancel, source = [COLLECTING_PAYMENT, CONFIRM_SMALLER_CHANGE], dest = RETURNING_CHANGE,
       conditions = [], before = []\<rparr>]"

subsection \<open>The \<open>Machine\<close> of the \<open>transitions\<close> library\<close>

text \<open>
  The machine is built with \<open>send_event=True\<close>, not queued, and with no handler for invalid
  triggers or exceptions. Firing a trigger then does the following, all synchronously:
  \<^item> if no transition of the trigger leaves the current state, \<open>MachineError\<close> is raised;
  \<^item> otherwise the transitions of the trigger from the current state are tried in the order
    of the table; the first whose conditions all hold runs its \<open>before\<close> callbacks, sets the
    state to \<open>dest\<close>, runs the \<open>on_enter\<close> callbacks of \<open>dest\<close>, and the call returns \<open>True\<close>;
  \<^item> if none passes the call returns \<open>False\<close>;
  \<^item> an exception of a condition or callback leaves the call at once, the machine staying as
    it was at that moment.
  The hook \<open>on_state_change\<close> only logs and is left out. \<open>fire\<close> is the trigger call used by
  a callback that names a trigger.
\<close>

type_synonym fire = "trigger \<Rightarrow> EventData \<Rightarrow> VendingMachine \<Rightarrow> (py_error + bool) \<times> VendingMachine"

fun eval_conditions :: "(VendingMachine \<Rightarrow> py_error + bool) list \<Rightarrow> VendingMachine \<Rightarrow> py_error + bool" where
  "eval_conditions [] vm = Inr True"
| "eval_conditions (c # cs) vm =
     (case c vm of
        Inl e \<Rightarrow> Inl e
      | Inr False \<Rightarrow> Inr False
      | Inr True \<Rightarrow> eval_conditions cs vm)"

fun callbacks :: "fire \<Rightarrow> callback list \<Rightarrow> EventData \<Rightarrow> VendingMachine \<Rightarrow> py_error option \<times> VendingMachine" where
  "callbacks fire [] event vm = (None, vm)"
| "callbacks fire (cb # cbs) event vm =
     (case (case cb of
              Method f \<Rightarrow> f event vm
            | Named t \<Rightarrow> (case fire t no_kwargs vm of
                           (Inl e, vm') \<Rightarrow> (Some e, vm')
                         | (Inr r, vm') \<Rightarrow> (None, vm'))) of
        (Some e, vm') \<Rightarrow> (Some e, vm')
      | (None, vm') \<Rightarrow> callbacks fire cbs event vm')"

definition on_enter :: "States \<Rightarrow> callback list" where
  "on_enter s = (case map_of get_states s of None \<Rightarrow> [] | Some cbs \<Rightarrow> cbs)"

text \<open>Changing the state: the state is set, then the \<open>on_enter\<close> callbacks of the new state run.\<close>

definition change_state :: "fire \<Rightarrow> States \<Rightarrow> EventData \<Rightarrow> VendingMachine \<Rightarrow> py_error option \<times> VendingMachine" where
  "change_state fire s event vm = callbacks fire (on_enter s) event (vm\<lparr>state := s\<rparr>)"

definition execute :: "fire \<Rightarrow> transition \<Rightarrow> EventData \<Rightarrow> VendingMachine \<Rightarrow> (py_error + bool) \<times> VendingMachine" where
  "execute fire t event vm =
     (case eval_conditions (conditions t) vm of
        Inl e \<Rightarrow> (Inl e, vm)
      | Inr False \<Rightarrow> (Inr False, vm)
      | Inr True \<Rightarrow>
          (case callbacks fire (before t) event vm of
             (Some e, vm1) \<Rightarrow> (Inl e, vm1)
           | (None, vm1) \<Rightarrow>
               (case change_state fire (dest t) event vm1 of
                  (Some e, vm2) \<Rightarrow> (Inl e, vm2)
                | (None, vm2) \<Rightarrow> (Inr True, vm2))))"

fun process :: "fire \<Rightarrow> transition list \<Rightarrow> EventData \<Rightarrow> VendingMachine \<Rightarrow> (py_error + bool) \<times> VendingMachine" where
  "process fire [] event vm = (Inr False, vm)"
| "process fire (t # ts) event vm =
     (case execute fire t event vm of
        (Inr False, vm') \<Rightarrow> process fire ts event vm'
      | r \<Rightarrow> r)"

definition transitions_from :: "trigger \<Rightarrow> States \<Rightarrow> transition list" where
  "transitions_from tr s = filter (\<lambda>t. trigger t = tr \<and> s \<in> set (source t)) get_transitions"

definition trigger_with :: "fire \<Rightarrow> fire" where
  "trigger_with fire tr event vm =
     (case transitions_from tr (state vm) of
        [] \<Rightarrow> (Inl MachineError, vm)
      | ts \<Rightarrow> process fire ts event vm)"

text \<open>
  A trigger fired from a callback is a nested call; \<open>fire n\<close> is the trigger call that may
  nest \<open>n\<close> levels deep (Python bounds the depth and raises \<open>RecursionError\<close> beyond it).
  The table nests \<open>advance\<close> at most twice, so three levels are all a call uses.
\<close>

primrec fire :: "nat \<Rightarrow> fire" where
  "fire 0 = (\<lambda>tr event vm. (Inl RecursionError, vm))"
| "fire (Suc n) = trigger_with (fire n)"

definition call :: fire where
  "call = fire 3"

text \<open>A sequence of trigger calls, stopping at the first exception.\<close>

fun calls :: "(trigger \<times> EventData) list \<Rightarrow> VendingMachine \<Rightarrow> py_error option \<times> VendingMachine" where
  "calls [] vm = (None, vm)"
| "calls ((tr, event) # rest) vm =
     (case call tr event vm of
        (Inl e, vm') \<Rightarrow> (Some e, vm')
      | (Inr r, vm') \<Rightarrow> calls rest vm')"

subsection \<open>The machine of the repository's tests\<close>

text \<open>\<open>setup_method\<close> of \<open>tests/test_vending_machine.py\<close>, and the keyword arguments of its calls.\<close>

definition test_machine :: VendingMachine where
  "test_machine =
     \<lparr>state = IDLE,
      stock = Stock_init
        [(1, \<lparr>name = ''Soda'', price = 210\<rparr>),
         (2, \<lparr>name = ''Water'', price = 100\<rparr>),
         (3, \<lparr>name = ''Ice tea'', price = 195\<rparr>)]
        [Product 1, Product 1, Product 2, Product 3],
      monetary_inventory =
        \<lparr>inventory = [(100, 5), (10, 3)],
         supported_denominantions = default_supported_denominantions\<rparr>,
      selected_product = None,
      customer_balance = 0,
      is_in_maintenance_mode = False,
      delivery_system = []\<rparr>"

definition product_id_kw :: "int \<Rightarrow> EventData" where
  "product_id_kw p = no_kwargs\<lparr>kw_product_id := Some p\<rparr>"

definition denomination_kw :: "int \<Rightarrow> EventData" where
  "denomination_kw v = no_kwargs\<lparr>kw_denomination := Some v\<rparr>"

definition machine_in :: "States \<Rightarrow> VendingMachine" where
  "machine_in s = test_machine\<lparr>state := s\<rparr>"

text \<open>The test machine after a purchase with change, after a cancelled payment, and while paying.\<close>

definition after_purchase :: VendingMachine where
  "after_purchase = snd (calls
     [(Start, no_kwargs), (Select, product_id_kw 2), (Insert, denomination_kw 200), (Checkout, no_kwargs)]
     test_machine)"

definition after_cancel :: VendingMachine where
  "after_cancel = snd (calls
     [(Start, no_kwargs), (Select, product_id_kw 2), (Insert, denomination_kw 100), (Cancel, no_kwargs)]
     test_machine)"

definition collecting :: VendingMachine where
  "collecting = snd (calls [(Start, no_kwargs), (Select, product_id_kw 2)] test_machine)"

text \<open>A machine whose supported denominations include one of value 0, holding one such unit,
  and that machine with product 2 selected and 200 inserted.\<close>

definition zero_coin_machine :: VendingMachine where
  "zero_coin_machine =
     test_machine\<lparr>monetary_inventory := \<lparr>inventory = [(0, 1)], supported_denominantions = [200, 0]\<rparr>\<rparr>"

definition paying_with_zero_coin :: VendingMachine where
  "paying_with_zero_coin = snd (calls
     [(Start, no_kwargs), (Select, product_id_kw 2), (Insert, denomination_kw 200)] zero_coin_machine)"

text \<open>A stock and a new catalogue for the catalogue merge.\<close>

definition merge_stock :: Stock where
  "merge_stock = Stock_init
     [(1, \<lparr>name = ''Soda'', price = 210\<rparr>),
      (2, \<lparr>name = ''Water'', price = 100\<rparr>),
      (3, \<lparr>name = ''Ice tea'', price = 195\<rparr>)]
     [Product 1, Product 2]"

definition merge_catalogue :: "(int, ProductInfo) dict" where
  "merge_catalogue =
     [(2, \<lparr>name = ''Still water'', price = 90\<rparr>), (4, \<lparr>name = ''Juice'', price = 150\<rparr>)]"

section \<open>Notions used to state the properties\<close>

text \<open>
  The body of each of the two loops of \<open>backtrack_best_change\<close>, as a function of the loop
  state (\<open>frames\<close> is the depth left for the nested call), and the value the function returns
  when the outer loop is over.
\<close>

definition try_units :: "nat \<Rightarrow> int \<Rightarrow> (int, int) dict \<Rightarrow> (int, int) dict \<Rightarrow> int \<Rightarrow> int \<Rightarrow> scan \<Rightarrow> scan" where
  "try_units frames owing change current denomination n st =
     (case st of
        Running b l \<Rightarrow>
          (case backtrack_best_change frames (owing - n * denomination) (dict_set denomination 0 change)
                  (Some (dict_set denomination n current)) b l of
             Inl e \<Rightarrow> Raised e
           | Inr (new_solution, difference) \<Rightarrow>
               if difference = 0 then Returned (new_solution, 0)
               else if difference < l then Running new_solution difference
               else Running b l)
      | Returned r \<Rightarrow> Returned r
      | Raised e \<Rightarrow> Raised e)"

definition try_denomination :: "nat \<Rightarrow> int \<Rightarrow> (int, int) dict \<Rightarrow> (int, int) dict \<Rightarrow> int \<Rightarrow> scan \<Rightarrow> scan" where
  "try_denomination frames owing change current denomination st =
     (case st of
        Running b0 l0 \<Rightarrow>
          if denomination = 0 then Raised ZeroDivisionError
          else
            (case dict_get change denomination of
               None \<Rightarrow> Raised KeyError
             | Some available \<Rightarrow>
                 fold (try_units frames owing change current denomination)
                   (rev [1 .. min (owing div denomination) available]) (Running b0 l0))
      | Returned r \<Rightarrow> Returned r
      | Raised e \<Rightarrow> Raised e)"

definition finish :: "scan \<Rightarrow> py_error + ((int, int) dict option \<times> int)" where
  "finish st = (case st of Running b l \<Rightarrow> Inr (b, l) | Returned r \<Rightarrow> Inr r | Raised e \<Rightarrow> Inl e)"

text \<open>
  The amount a configuration pays out, and the search space of the change search for an
  owed amount: the choices of a positive number of units, within what the inventory holds,
  of some denominations of positive value, that pay out no more than is owed.
\<close>

definition total_value :: "(int, int) dict \<Rightarrow> int" where
  "total_value c = sum_list (map (\<lambda>(d, n). n * d) c)"

definition feasible :: "(int, int) dict \<Rightarrow> int \<Rightarrow> (int, int) dict \<Rightarrow> bool" where
  "feasible change owed_amount sel \<longleftrightarrow>
     dict_ok sel
     \<and> list_all (\<lambda>(d, n). 0 < d \<and> 0 < n \<and> n \<le> dict_default 0 change d) sel
     \<and> total_value sel \<le> owed_amount"

text \<open>
  An inventory as the class keeps it: a dict whose keys are \<open>Denomination\<close> objects (values
  the constructor accepts). It is free of zeros when no unit of value 0 is held.
\<close>

definition valid_denomination :: "int \<Rightarrow> bool" where
  "valid_denomination v \<longleftrightarrow> Denomination v = Inr v"

definition inventory_ok :: "MonetaryInventory \<Rightarrow> bool" where
  "inventory_ok mi \<longleftrightarrow>
     dict_ok (inventory mi)
     \<and> list_all (\<lambda>(d, q). valid_denomination d \<and> (q \<le> 0 \<or> d \<noteq> 0)) (inventory mi)"

text \<open>Bounds on the loop state: a remainder is never negative, and stays below a bound.\<close>

definition scan_ok :: "scan \<Rightarrow> bool" where
  "scan_ok st = (case st of Running b l \<Rightarrow> 0 \<le> l | Returned (s, d) \<Rightarrow> d = 0 | Raised e \<Rightarrow> True)"

definition scan_below :: "int \<Rightarrow> scan \<Rightarrow> bool" where
  "scan_below m st = (case st of Running b l \<Rightarrow> l \<le> m | Returned (s, d) \<Rightarrow> d \<le> m | Raised e \<Rightarrow> True)"

section \<open>Dictionaries\<close>

lemma map_of_dict_set:
  "map_of (dict_set k v d) k' = (if k' = k then Some v else map_of d k')"
proof (cases "k \<in> fst ` set d")
  case True
  have "map_of (map (\<lambda>(k', v'). if k' = k then (k', v) else (k', v')) xs) k' =
        (if k' = k then (if k \<in> fst ` set xs then Some v else None) else map_of xs k')" for xs
    by (induction xs) (auto split: if_splits)
  with True show ?thesis by (simp add: dict_set_def)
next
  case False
  then have "map_of d k = None" by (simp add: map_of_eq_None_iff)
  with False show ?thesis by (auto simp: dict_set_def map_add_def split: option.splits)
qed

lemma keys_dict_set: "fst ` set (dict_set k v d) = insert k (fst ` set d)"
  by (force simp: dict_set_def split: if_splits)

lemma map_fst_dict_set:
  "map fst (dict_set k v d) = (if k \<in> fst ` set d then map fst d else map fst d @ [k])"
proof -
  have "map fst (map (\<lambda>(k', v'). if k' = k then (k', v) else (k', v')) d) = map fst d"
    by (induction d) auto
  then show ?thesis by (simp add: dict_set_def)
qed

lemma dict_ok_dict_set: "dict_ok d \<Longrightarrow> dict_ok (dict_set k v d)"
  by (simp add: dict_ok_def map_fst_dict_set)

lemma map_of_dict_touch:
  "map_of (dict_touch dflt k d) k' = (if k' = k \<and> k \<notin> fst ` set d then Some dflt else map_of d k')"
proof (cases "k \<in> fst ` set d")
  case True
  then show ?thesis by (simp add: dict_touch_def)
next
  case False
  then have "map_of d k = None" by (simp add: map_of_eq_None_iff)
  with False show ?thesis by (auto simp: dict_touch_def map_add_def split: option.splits)
qed

lemma dict_default_dict_touch [simp]:
  "dict_default dflt (dict_touch dflt k d) k' = dict_default dflt d k'"
proof (cases "k \<in> fst ` set d")
  case True
  then show ?thesis by (simp add: dict_touch_def)
next
  case False
  then have "map_of d k = None" by (simp add: map_of_eq_None_iff)
  with False show ?thesis by (simp add: dict_default_def map_of_dict_touch)
qed

lemma dict_default_dict_set [simp]:
  "dict_default dflt (dict_set k v d) k' = (if k' = k then v else dict_default dflt d k')"
  by (simp add: dict_default_def map_of_dict_set)

lemma dict_default_fold_touch [simp]:
  "dict_default dflt (fold (\<lambda>(k, v). dict_touch dflt k) xs d) k' = dict_default dflt d k'"
  by (induction xs arbitrary: d) (auto)

lemma map_of_dict_union:
  "dict_ok b \<Longrightarrow> map_of (dict_union a b) k = (case map_of b k of Some v \<Rightarrow> Some v | None \<Rightarrow> map_of a k)"
  unfolding dict_union_def dict_ok_def
proof (induction b arbitrary: a)
  case Nil
  then show ?case by simp
next
  case (Cons x b)
  obtain k' v' where x: "x = (k', v')" by (cases x)
  from Cons.prems x have nk: "k' \<notin> fst ` set b" and d: "distinct (map fst b)" by auto
  from nk have "map_of b k' = None" by (simp add: map_of_eq_None_iff)
  with Cons.IH [OF d, of "dict_set k' v' a"] show ?case
    by (auto simp: x map_of_dict_set split: option.splits)
qed

lemma map_of_filter_key:
  "map_of (filter (\<lambda>(k, v). P k) xs) k = (if P k then map_of xs k else None)"
  by (induction xs) auto

section \<open>The change search on the inputs of the tests\<close>


section \<open>Removing change\<close>

text \<open>
  Claim C10. \<open>remove_change\<close> is not atomic when it fails: there are an inventory and a
  mapping of two denominations for which it raises the underflow error after it has
  decremented a denomination that came earlier in the mapping. Here the inventory is
  \<open>{100: 1}\<close> and the mapping \<open>{100: 1, 50: 1}\<close>: the 100 is taken out, then the 50 is short.
\<close>

theorem remove_change_not_atomic:
  "\<exists>mi change d.
     2 \<le> length change \<and> dict_ok change
     \<and> fst (remove_change change mi) = Some RuntimeError
     \<and> d \<in> fst ` set change
     \<and> dict_default 0 (inventory (snd (remove_change change mi))) d < dict_default 0 (inventory mi) d"
proof -
  let ?mi = "\<lparr>inventory = [(100, 1)], supported_denominantions = default_supported_denominantions\<rparr>"
  let ?change = "[(100, 1), (50, 1)] :: (int \<times> int) list"
  have "2 \<le> length ?change \<and> dict_ok ?change
     \<and> fst (remove_change ?change ?mi) = Some RuntimeError
     \<and> 100 \<in> fst ` set ?change
     \<and> dict_default 0 (inventory (snd (remove_change ?change ?mi))) 100 < dict_default 0 (inventory ?mi) 100"
    by code_simp
  then show ?thesis by blast
qed

section \<open>Triggers that the current state does not allow\<close>

lemma transitions_from_empty_iff:
  "transitions_from tr s = [] \<longleftrightarrow> (\<forall>t \<in> set get_transitions. trigger t = tr \<longrightarrow> s \<notin> set (source t))"
  by (auto simp: transitions_from_def filter_empty_conv)

text \<open>
  Claim C8. A trigger none of whose transitions has the current state as a source
  (\<open>transitions_from\<close> is empty) raises \<open>MachineError\<close> and returns the machine as it was:
  state, balance, selection, inventory and stock are unchanged. In particular
  \<open>start_maintenance\<close> from any state but \<open>IDLE\<close>, and \<open>start\<close> in \<open>MAINTENANCE_MODE\<close>.
\<close>

theorem invalid_trigger_rejected:
  "(transitions_from tr (state vm) = [] \<longrightarrow> call tr event vm = (Inl MachineError, vm))
   \<and> (state vm \<noteq> IDLE \<longrightarrow> call Start_maintenance event vm = (Inl MachineError, vm))
   \<and> (state vm = MAINTENANCE_MODE \<longrightarrow> call Start event vm = (Inl MachineError, vm))"
proof -
  have gen: "call tr' event vm = (Inl MachineError, vm)"
    if "transitions_from tr' (state vm) = []" for tr'
    using that by (simp add: call_def numeral_3_eq_3 trigger_with_def)
  have a: "transitions_from Start_maintenance (state vm) = []" if "state vm \<noteq> IDLE"
    using that by (simp add: transitions_from_def get_transitions_def)
  have b: "transitions_from Start (state vm) = []" if "state vm = MAINTENANCE_MODE"
    using that by (simp add: transitions_from_def get_transitions_def)
  show ?thesis using gen a b by blast
qed

theorem invalid_trigger_rejected_witness:
  "transitions_from Start (state (machine_in MAINTENANCE_MODE)) = []
   \<and> state (machine_in MAINTENANCE_MODE) \<noteq> IDLE
   \<and> state (machine_in MAINTENANCE_MODE) = MAINTENANCE_MODE
   \<and> call Start no_kwargs (machine_in MAINTENANCE_MODE) = (Inl MachineError, machine_in MAINTENANCE_MODE)
   \<and> call Start_maintenance no_kwargs (machine_in MAINTENANCE_MODE) = (Inl MachineError, machine_in MAINTENANCE_MODE)"
proof -
  have s: "state (machine_in MAINTENANCE_MODE) = MAINTENANCE_MODE"
    by (simp add: machine_in_def)
  have h: "transitions_from Start (state (machine_in MAINTENANCE_MODE)) = []"
    by (simp add: s transitions_from_def get_transitions_def)
  from invalid_trigger_rejected [of Start "machine_in MAINTENANCE_MODE" no_kwargs] h s
  show ?thesis by simp
qed

section \<open>Replacing the catalogue\<close>

text \<open>
  Claim C9. After \<open>update_catalogue new_catalogue\<close> the catalogue is the offer merged under
  the new catalogue. Looked up at any product id \<open>k\<close>: an id of the new catalogue has the
  new info; an id absent from it keeps its old info if a unit of it is in stock, and is
  dropped otherwise; and the offer afterwards holds exactly the catalogue entries with a
  unit in stock, so an id new to the catalogue with no stock is in the catalogue and not
  in the offer. The new catalogue is a dict: its keys are distinct.
\<close>

theorem update_catalogue_merge:
  assumes "dict_ok new_catalogue"
  shows "catalogue (update_catalogue new_catalogue s) = dict_union (fst (get_offer s)) new_catalogue
       \<and> dict_get (catalogue (update_catalogue new_catalogue s)) k =
           (case dict_get new_catalogue k of
              Some info \<Rightarrow> Some info
            | None \<Rightarrow> if dict_default [] (products s) k \<noteq> [] then dict_get (catalogue s) k else None)
       \<and> dict_get (fst (get_offer (update_catalogue new_catalogue s))) k =
           (if dict_default [] (products s) k \<noteq> []
            then dict_get (catalogue (update_catalogue new_catalogue s)) k else None)"
proof -
  have c: "catalogue (update_catalogue new_catalogue s) = dict_union (fst (get_offer s)) new_catalogue"
    by (simp add: update_catalogue_def get_offer_def)
  have p: "dict_default [] (products (update_catalogue new_catalogue s)) k = dict_default [] (products s) k"
    by (simp add: update_catalogue_def get_offer_def)
  have o: "map_of (fst (get_offer s')) k =
           (if dict_default [] (products s') k \<noteq> [] then map_of (catalogue s') k else None)" for s'
    by (simp add: get_offer_def map_of_filter_key)
  have l: "dict_get (catalogue (update_catalogue new_catalogue s)) k =
           (case dict_get new_catalogue k of
              Some info \<Rightarrow> Some info
            | None \<Rightarrow> if dict_default [] (products s) k \<noteq> [] then dict_get (catalogue s) k else None)"
    by (auto simp: c dict_get_def map_of_dict_union [OF assms] o split: option.splits)
  show ?thesis using c l by (simp add: dict_get_def o p)
qed

theorem update_catalogue_merge_witness:
  "dict_ok merge_catalogue
   \<and> dict_get (catalogue (update_catalogue merge_catalogue merge_stock)) 1 = Some \<lparr>name = ''Soda'', price = 210\<rparr>
   \<and> dict_get (catalogue (update_catalogue merge_catalogue merge_stock)) 2 = Some \<lparr>name = ''Still water'', price = 90\<rparr>
   \<and> dict_get (catalogue (update_catalogue merge_catalogue merge_stock)) 3 = None
   \<and> dict_get (catalogue (update_catalogue merge_catalogue merge_stock)) 4 = Some \<lparr>name = ''Juice'', price = 150\<rparr>
   \<and> dict_get (fst (get_offer (update_catalogue merge_catalogue merge_stock))) 4 = None"
proof -
  have ok: "dict_ok merge_catalogue" by code_simp
  have new: "dict_get merge_catalogue 1 = None"
    "dict_get merge_catalogue 2 = Some \<lparr>name = ''Still water'', price = 90\<rparr>"
    "dict_get merge_catalogue 3 = None"
    "dict_get merge_catalogue 4 = Some \<lparr>name = ''Juice'', price = 150\<rparr>"
    by code_simp+
  have old: "dict_get (catalogue merge_stock) 1 = Some \<lparr>name = ''Soda'', price = 210\<rparr>"
    by code_simp
  have units: "dict_default [] (products merge_stock) 1 \<noteq> []"
    "dict_default [] (products merge_stock) 3 = []"
    "dict_default [] (products merge_stock) 4 = []"
    by code_simp+
  from update_catalogue_merge [OF ok, of merge_stock 1, THEN conjunct2]
       update_catalogue_merge [OF ok, of merge_stock 2, THEN conjunct2]
       update_catalogue_merge [OF ok, of merge_stock 3, THEN conjunct2]
       update_catalogue_merge [OF ok, of merge_stock 4, THEN conjunct2]
  show ?thesis by (simp add: ok new old units)
qed

section \<open>What a transaction leaves behind\<close>

text \<open>
  Claim C1 says that when \<open>start\<close> fires from \<open>IDLE\<close> the selection is \<open>None\<close> and the balance is
  0. The code never resets the balance and clears the selection only when a product is
  dispatched. On the machine of the tests: after buying product 2 (price 100) with a 200
  the machine is back in \<open>IDLE\<close> with a balance of 100, the change it has just paid out, and
  the next \<open>start\<close> succeeds with that balance; after a payment of 100 that was cancelled
  the next \<open>start\<close> succeeds with product 2 still selected and a balance of 100.
\<close>

theorem session_state_carries_over:
  "state after_purchase = IDLE
   \<and> customer_balance after_purchase = 100
   \<and> fst (call Start no_kwargs after_purchase) = Inr True
   \<and> customer_balance (snd (call Start no_kwargs after_purchase)) = 100
   \<and> state after_cancel = IDLE
   \<and> fst (call Start no_kwargs after_cancel) = Inr True
   \<and> selected_product (snd (call Start no_kwargs after_cancel)) = Some 2
   \<and> customer_balance (snd (call Start no_kwargs after_cancel)) = 100"
  by code_simp

section \<open>Inserting an unsupported denomination\<close>

text \<open>
  In \<open>COLLECTING_PAYMENT\<close>, inserting a value outside the supported list raises \<open>ValueError\<close>
  and leaves state, selection, inventory and stock alone, but the balance has already been
  increased by the value.
\<close>

lemma insert_unsupported:
  assumes "state vm = COLLECTING_PAYMENT"
    and "v \<notin> set (supported_denominantions (monetary_inventory vm))"
  shows "call Insert (denomination_kw v) vm =
         (Inl ValueError, vm\<lparr>customer_balance := customer_balance vm + v\<rparr>)"
  using assms
  by (simp add: call_def numeral_3_eq_3 trigger_with_def transitions_from_def get_transitions_def
      execute_def change_state_def on_enter_def get_states_def vm_insert_def denomination_kw_def
      no_kwargs_def Denomination_def add_monetary_unit_def)

text \<open>
  Claim C4 says that such an insert is rejected before any mutation, balance and inventory
  both unchanged. On the machine of the tests, with product 2 selected and nothing paid,
  inserting the value 3 (not a supported denomination) raises \<open>ValueError\<close> and leaves the
  inventory unchanged, but the balance is 3 afterwards.
\<close>

theorem insert_unsupported_keeps_credit:
  "state collecting = COLLECTING_PAYMENT
   \<and> customer_balance collecting = 0
   \<and> 3 \<notin> set (supported_denominantions (monetary_inventory collecting))
   \<and> call Insert (denomination_kw 3) collecting = (Inl ValueError, collecting\<lparr>customer_balance := 3\<rparr>)"
  by code_simp

section \<open>The change search\<close>

lemma backtrack_out_of_frames:
  "backtrack_best_change 0 owing change cs best lowest = Inl RecursionError"
  by simp

lemma dict_set_zero_fewer_positive:
  assumes "(k, q) \<in> set d" and "0 < q"
  shows "length (filter (\<lambda>(k', v). (0::int) < v) (dict_set k 0 d))
       < length (filter (\<lambda>(k', v). 0 < v) d)"
proof -
  have mem: "k \<in> fst ` set d" using assms(1) by force
  let ?f = "\<lambda>(k', v'). if k' = k then (k', 0::int) else (k', v')"
  have le: "length (filter (\<lambda>(k', v). 0 < v) (map ?f xs)) \<le> length (filter (\<lambda>(k', v). 0 < v) xs)"
    for xs :: "('a \<times> int) list"
    by (induction xs) (auto split: if_splits)
  have "(k, q) \<in> set xs \<Longrightarrow>
        length (filter (\<lambda>(k', v). 0 < v) (map ?f xs)) < length (filter (\<lambda>(k', v). 0 < v) xs)"
    for xs :: "('a \<times> int) list"
  proof (induction xs)
    case Nil
    then show ?case by simp
  next
    case (Cons x xs)
    show ?case
    proof (cases "x = (k, q)")
      case True
      then show ?thesis using le [of xs] assms(2) by (simp add: less_Suc_eq_le)
    next
      case False
      then have "(k, q) \<in> set xs" using Cons.prems by simp
      from Cons.IH [OF this] show ?thesis by (auto split: prod.splits if_splits)
    qed
  qed
  from this [OF assms(1)] mem show ?thesis by (simp add: dict_set_def)
qed

lemma denominations_of_positive:
  "k \<in> set (denominations_of d) \<Longrightarrow> \<exists>q. (k, q) \<in> set d \<and> 0 < q"
  by (auto simp: denominations_of_def)

lemma denominations_of_fewer:
  assumes "k \<in> set (denominations_of d)"
  shows "length (denominations_of (dict_set k 0 d)) < length (denominations_of d)"
proof -
  from denominations_of_positive [OF assms] obtain q where "(k, q) \<in> set d" "0 < q" by blast
  from dict_set_zero_fewer_positive [OF this] show ?thesis by (simp add: denominations_of_def)
qed

lemma backtrack_unfold:
  "backtrack_best_change (Suc frames) owing change cs best lowest =
     (if owing = 0 then Inr (Some (case cs of None \<Rightarrow> [] | Some s \<Rightarrow> s), 0)
      else finish (fold (try_denomination frames owing change (case cs of None \<Rightarrow> [] | Some s \<Rightarrow> s))
             (denominations_of change)
             (Running (if owing < lowest then Some (case cs of None \<Rightarrow> [] | Some s \<Rightarrow> s) else best)
                      (if owing < lowest then owing else lowest))))"
proof -
  have u: "try_units frames owing change current denomination =
        (\<lambda>n st. case st of
            Running b l \<Rightarrow>
              (case backtrack_best_change frames (owing - n * denomination) (dict_set denomination 0 change)
                      (Some (dict_set denomination n current)) b l of
                 Inl e \<Rightarrow> Raised e
               | Inr (new_solution, difference) \<Rightarrow>
                   if difference = 0 then Returned (new_solution, 0)
                   else if difference < l then Running new_solution difference
                   else Running b l)
          | Returned r \<Rightarrow> Returned r
          | Raised e \<Rightarrow> Raised e)" for current denomination
    by (intro ext) (simp add: try_units_def)
  have d: "try_denomination frames owing change current =
        (\<lambda>denomination st. case st of
            Running b0 l0 \<Rightarrow>
              if denomination = 0 then Raised ZeroDivisionError
              else
                (case dict_get change denomination of
                   None \<Rightarrow> Raised KeyError
                 | Some available \<Rightarrow>
                     fold (try_units frames owing change current denomination)
                       (rev [1 .. min (owing div denomination) available]) (Running b0 l0))
          | Returned r \<Rightarrow> Returned r
          | Raised e \<Rightarrow> Raised e)" for current
    by (intro ext) (simp add: try_denomination_def)
  show ?thesis
    unfolding d u finish_def
    by (subst backtrack_best_change.simps) (simp add: Let_def)
qed

declare backtrack_best_change.simps [simp del]

lemma fold_scan_invariant:
  assumes "I st"
    and "\<And>x s. x \<in> set xs \<Longrightarrow> I s \<Longrightarrow> I (f x s)"
  shows "I (fold f xs st)"
  using assms by (induction xs arbitrary: st) auto

lemma backtrack_invariant:
  fixes Node :: "int \<Rightarrow> (int, int) dict \<Rightarrow> (int, int) dict \<Rightarrow> bool"
    and Best :: "(int, int) dict option \<Rightarrow> int \<Rightarrow> bool"
  assumes here: "\<And>owing change cur. Node owing change cur \<Longrightarrow> Best (Some cur) owing"
    and down: "\<And>owing change cur d av n.
        Node owing change cur \<Longrightarrow> owing \<noteq> 0 \<Longrightarrow> d \<in> set (denominations_of change) \<Longrightarrow> d \<noteq> 0 \<Longrightarrow>
        dict_get change d = Some av \<Longrightarrow> 1 \<le> n \<Longrightarrow> n \<le> owing div d \<Longrightarrow> n \<le> av \<Longrightarrow>
        Node (owing - n * d) (dict_set d 0 change) (dict_set d n cur)"
  shows "Node owing change (case cs of None \<Rightarrow> [] | Some s \<Rightarrow> s) \<Longrightarrow>
         owing < lowest \<or> Best best lowest \<Longrightarrow>
         backtrack_best_change frames owing change cs best lowest = Inr (rs, diff) \<Longrightarrow>
         Best rs diff"
proof (induction frames owing change cs best lowest arbitrary: rs diff rule: backtrack_best_change.induct)
  case (1 owing change cs best lowest)
  then show ?case by (simp add: backtrack_out_of_frames)
next
  case (2 frames owing change cs best lowest)
  let ?cur = "case cs of None \<Rightarrow> [] | Some s \<Rightarrow> s"
  let ?b = "if owing < lowest then Some ?cur else best"
  let ?l = "if owing < lowest then owing else lowest"
  let ?I = "\<lambda>st. case st of Running b l \<Rightarrow> Best b l | Returned (s, d) \<Rightarrow> Best s d | Raised e \<Rightarrow> True"
  note node = "2.prems"(1)
  have start: "Best ?b ?l"
    using "2.prems"(2) here [OF node] by auto
  show ?case
  proof (cases "owing = 0")
    case True
    with "2.prems"(3) have "rs = Some ?cur" "diff = 0"
      by (simp_all add: backtrack_unfold)
    with here [OF node] True show ?thesis by simp
  next
    case False
    have inner: "?I (try_units frames owing change ?cur d n st)"
      if d: "d \<in> set (denominations_of change)" "d \<noteq> 0" "dict_get change d = Some av"
        and n: "n \<in> set (rev [1 .. min (owing div d) av])" and st: "?I st" for d av n st
    proof (cases st)
      case (Running b l)
      from n have n': "1 \<le> n" "n \<le> owing div d" "n \<le> av" by auto
      have child: "Node (owing - n * d) (dict_set d 0 change) (dict_set d n ?cur)"
        by (rule down [OF node False d n'])
      from st Running have bl: "Best b l" by simp
      show ?thesis
      proof (cases "backtrack_best_change frames (owing - n * d) (dict_set d 0 change) (Some (dict_set d n ?cur)) b l")
        case (Inl e)
        then show ?thesis by (simp add: try_units_def Running)
      next
        case (Inr r)
        obtain ns df where r: "r = (ns, df)" by (cases r)
        have "Best ns df"
          by (rule "2.IH" [OF refl refl refl False d n _ _ Inr [unfolded r]])
             (use child bl in simp_all)
        with bl show ?thesis by (auto simp: try_units_def Running Inr r)
      qed
    qed (use st in \<open>simp_all add: try_units_def\<close>)
    have outer: "?I (try_denomination frames owing change ?cur d st)"
      if d: "d \<in> set (denominations_of change)" and st: "?I st" for d st
    proof (cases st)
      case (Running b0 l0)
      show ?thesis
      proof (cases "d = 0 \<or> dict_get change d = None")
        case True
        then show ?thesis by (auto simp: try_denomination_def Running)
      next
        case False
        then obtain av where av: "d \<noteq> 0" "dict_get change d = Some av" by auto
        have "?I (fold (try_units frames owing change ?cur d) (rev [1 .. min (owing div d) av]) (Running b0 l0))"
          by (rule fold_scan_invariant) (use st Running inner [OF d av] in auto)
        then show ?thesis by (simp add: try_denomination_def Running av)
      qed
    qed (use st in \<open>simp_all add: try_denomination_def\<close>)
    have "?I (fold (try_denomination frames owing change ?cur) (denominations_of change) (Running ?b ?l))"
      by (rule fold_scan_invariant) (use start outer in auto)
    moreover have "finish (fold (try_denomination frames owing change ?cur) (denominations_of change) (Running ?b ?l))
                   = Inr (rs, diff)"
      using "2.prems"(3) False by (simp add: backtrack_unfold)
    ultimately show ?thesis
      by (auto simp: finish_def split: scan.splits)
  qed
qed

lemma dict_get_of_member: "dict_ok d \<Longrightarrow> (k, v) \<in> set d \<Longrightarrow> dict_get d k = Some v"
  by (simp add: dict_ok_def dict_get_def)

lemma dict_get_member: "dict_get d k = Some v \<Longrightarrow> (k, v) \<in> set d"
  by (simp add: dict_get_def map_of_SomeD)

lemma dict_default_of_get: "dict_get d k = Some v \<Longrightarrow> dict_default dflt d k = v"
  by (simp add: dict_get_def dict_default_def)

lemma denominations_of_get:
  assumes "dict_ok change" and "d \<in> set (denominations_of change)"
  shows "\<exists>q. 0 < q \<and> dict_get change d = Some q"
  using denominations_of_positive [OF assms(2)] dict_get_of_member [OF assms(1)] by blast

lemma dict_set_fresh: "k \<notin> fst ` set d \<Longrightarrow> dict_set k v d = d @ [(k, v)]"
  by (simp add: dict_set_def)

lemma total_value_snoc [simp]: "total_value (c @ [(d, n)]) = total_value c + n * d"
  by (simp add: total_value_def)

lemma units_fit:
  assumes "0 \<le> owing" and "1 \<le> n" and "n \<le> owing div d"
  shows "0 \<le> owing - n * (d::int)"
proof (cases "0 < d")
  case True
  have "n * d \<le> (owing div d) * d" using assms(3) True by (simp add: mult_right_mono)
  also have "\<dots> \<le> owing"
    using div_mult_mod_eq [of owing d] pos_mod_sign [OF True, of owing] by linarith
  finally show ?thesis by simp
next
  case False
  then have "owing div d \<le> 0" using assms(1)
    by (cases "d = 0") (simp_all add: div_nonneg_neg_le0)
  with assms show ?thesis by simp
qed

lemma backtrack_sound:
  assumes ok: "dict_ok change"
    and res: "backtrack_best_change frames owed_amount change None None lowest = Inr (Some sol, diff)"
  shows "total_value sol + diff = owed_amount \<and> dict_ok sol
       \<and> (\<forall>d n. (d, n) \<in> set sol \<longrightarrow> 0 < n \<and> n \<le> dict_default 0 change d)"
proof -
  define Node where "Node = (\<lambda>owing (chg :: (int, int) dict) (cur :: (int, int) dict).
      total_value cur + owing = owed_amount \<and> dict_ok cur \<and> dict_ok chg
    \<and> (\<forall>d n. (d, n) \<in> set cur \<longrightarrow> 0 < n \<and> n \<le> dict_default 0 change d \<and> dict_default 0 chg d \<le> 0)
    \<and> (\<forall>d q. dict_get chg d = Some q \<longrightarrow> 0 < q \<longrightarrow> dict_default 0 change d = q))"
  define Best where "Best = (\<lambda>(b :: (int, int) dict option) (l :: int).
      \<forall>s. b = Some s \<longrightarrow> total_value s + l = owed_amount \<and> dict_ok s
           \<and> (\<forall>d n. (d, n) \<in> set s \<longrightarrow> 0 < n \<and> n \<le> dict_default 0 change d))"
  have here: "Best (Some cur) owing" if "Node owing chg cur" for owing chg cur
    using that by (auto simp: Node_def Best_def)
  have down: "Node (owing - n * d) (dict_set d 0 chg) (dict_set d n cur)"
    if node: "Node owing chg cur" and d: "d \<in> set (denominations_of chg)"
      and av: "dict_get chg d = Some av" and n: "1 \<le> n" "n \<le> av"
    for owing chg cur d av n
  proof -
    from node have okc: "dict_ok chg" by (simp add: Node_def)
    from denominations_of_get [OF okc d] av have pos: "0 < av" by auto
    have dd: "dict_default 0 chg d = av" by (rule dict_default_of_get [OF av])
    have fresh: "d \<notin> fst ` set cur"
    proof
      assume "d \<in> fst ` set cur"
      then obtain m where "(d, m) \<in> set cur" by force
      with node have "dict_default 0 chg d \<le> 0" by (auto simp: Node_def)
      with dd pos show False by simp
    qed
    have inv: "dict_default 0 change d = av"
      using node av pos by (auto simp: Node_def)
    have cur': "dict_set d n cur = cur @ [(d, n)]" by (rule dict_set_fresh [OF fresh])
    have "total_value (cur @ [(d, n)]) + (owing - n * d) = owed_amount"
      using node by (simp add: Node_def)
    moreover have "dict_ok (cur @ [(d, n)])"
      using node fresh by (simp add: Node_def dict_ok_def)
    moreover have "dict_ok (dict_set d 0 chg)" by (rule dict_ok_dict_set [OF okc])
    moreover have "\<forall>d' m. (d', m) \<in> set (cur @ [(d, n)]) \<longrightarrow>
        0 < m \<and> m \<le> dict_default 0 change d' \<and> dict_default 0 (dict_set d 0 chg) d' \<le> 0"
      using node n inv by (auto simp: Node_def)
    moreover have "\<forall>d' q. dict_get (dict_set d 0 chg) d' = Some q \<longrightarrow> 0 < q \<longrightarrow> dict_default 0 change d' = q"
      using node by (auto simp: Node_def dict_get_def map_of_dict_set split: if_splits)
    ultimately show ?thesis by (simp add: Node_def cur')
  qed
  have "Node owed_amount change (case None of None \<Rightarrow> [] | Some s \<Rightarrow> s)"
    using ok by (auto simp: Node_def total_value_def dict_ok_def dict_default_of_get)
  moreover have "owed_amount < lowest \<or> Best None lowest" by (simp add: Best_def)
  ultimately have "Best (Some sol) diff"
    using res
    by (rule backtrack_invariant [where Node = Node and Best = Best, rotated 2]) (use here down in blast)+
  then show ?thesis by (simp add: Best_def)
qed

lemma backtrack_nonneg:
  assumes "0 \<le> owed_amount" and "0 \<le> lowest"
    and res: "backtrack_best_change frames owed_amount change cs best lowest = Inr (rs, diff)"
  shows "0 \<le> diff"
proof -
  have "(\<lambda>b l. (0::int) \<le> l) rs diff"
    by (rule backtrack_invariant [where Node = "\<lambda>owing chg cur. 0 \<le> owing" and Best = "\<lambda>b l. 0 \<le> l", OF _ _ _ _ res])
       (use assms units_fit in auto)
  then show ?thesis .
qed

lemma backtrack_some:
  assumes "owed_amount < lowest \<or> best \<noteq> None"
    and res: "backtrack_best_change frames owed_amount change cs best lowest = Inr (rs, diff)"
  shows "rs \<noteq> None"
proof -
  have "(\<lambda>b (l::int). b \<noteq> None) rs diff"
    by (rule backtrack_invariant [where Node = "\<lambda>owing chg cur. True" and Best = "\<lambda>b l. b \<noteq> None", OF _ _ _ _ res])
       (use assms in auto)
  then show ?thesis .
qed

lemma dict_set_member:
  "(k', v') \<in> set (dict_set k v d) \<Longrightarrow> (k' = k \<and> v' = v) \<or> ((k', v') \<in> set d \<and> k' \<noteq> k)"
  by (auto simp: dict_set_def image_iff split: if_splits)

text \<open>
  Every nested call has used up one more denomination, so a search that starts with more
  frames than there are denominations in stock never runs out of them; without a zero
  denomination in stock nothing else raises.
\<close>

lemma backtrack_no_error:
  "dict_ok change \<Longrightarrow> (\<forall>d q. (d, q) \<in> set change \<longrightarrow> 0 < q \<longrightarrow> d \<noteq> 0) \<Longrightarrow>
   length (denominations_of change) < frames \<Longrightarrow>
   \<exists>r. backtrack_best_change frames owing change cs best lowest = Inr r"
proof (induction frames owing change cs best lowest rule: backtrack_best_change.induct)
  case (1 owing change cs best lowest)
  then show ?case by (simp add: backtrack_out_of_frames)
next
  case (2 frames owing change cs best lowest)
  let ?cur = "case cs of None \<Rightarrow> [] | Some s \<Rightarrow> s"
  let ?I = "\<lambda>st. \<forall>e. st \<noteq> Raised e"
  show ?case
  proof (cases "owing = 0")
    case True
    then show ?thesis by (simp add: backtrack_unfold)
  next
    case False
    have inner: "?I (try_units frames owing change ?cur d n st)"
      if d: "d \<in> set (denominations_of change)" "d \<noteq> 0" "dict_get change d = Some av"
        and n: "n \<in> set (rev [1 .. min (owing div d) av])" and st: "?I st" for d av n st
    proof (cases st)
      case (Running b l)
      have "dict_ok (dict_set d 0 change)" by (rule dict_ok_dict_set [OF "2.prems"(1)])
      moreover have "\<forall>d' q. (d', q) \<in> set (dict_set d 0 change) \<longrightarrow> 0 < q \<longrightarrow> d' \<noteq> 0"
        using "2.prems"(2) by (auto dest: dict_set_member)
      moreover have "length (denominations_of (dict_set d 0 change)) < frames"
        using denominations_of_fewer [OF d(1)] "2.prems"(3) by simp
      ultimately obtain r where
        "backtrack_best_change frames (owing - n * d) (dict_set d 0 change) (Some (dict_set d n ?cur)) b l = Inr r"
        using "2.IH" [OF refl refl refl False d n] by blast
      then show ?thesis by (auto simp: try_units_def Running split: prod.splits)
    qed (use st in \<open>simp_all add: try_units_def\<close>)
    have outer: "?I (try_denomination frames owing change ?cur d st)"
      if d: "d \<in> set (denominations_of change)" and st: "?I st" for d st
    proof (cases st)
      case (Running b0 l0)
      from denominations_of_get [OF "2.prems"(1) d] obtain av where av: "0 < av" "dict_get change d = Some av"
        by blast
      from dict_get_member [OF av(2)] av(1) "2.prems"(2) have nz: "d \<noteq> 0" by blast
      have "?I (fold (try_units frames owing change ?cur d) (rev [1 .. min (owing div d) av]) (Running b0 l0))"
        by (rule fold_scan_invariant) (use inner [OF d nz av(2)] in auto)
      then show ?thesis by (simp add: try_denomination_def Running av nz)
    qed (use st in \<open>simp_all add: try_denomination_def\<close>)
    define st0 where
      "st0 = Running (if owing < lowest then Some ?cur else best) (if owing < lowest then owing else lowest)"
    have "?I (fold (try_denomination frames owing change ?cur) (denominations_of change) st0)"
      by (rule fold_scan_invariant) (use outer in \<open>auto simp: st0_def\<close>)
    moreover have "backtrack_best_change (Suc frames) owing change cs best lowest
        = finish (fold (try_denomination frames owing change ?cur) (denominations_of change) st0)"
      using False by (simp add: backtrack_unfold st0_def)
    ultimately show ?thesis
      by (cases "fold (try_denomination frames owing change ?cur) (denominations_of change) st0")
         (simp_all add: finish_def)
  qed
qed

lemma fold_scan_reach:
  assumes x: "x \<in> set xs" and w0: "W st0"
    and w: "\<And>y s. y \<in> set xs \<Longrightarrow> W s \<Longrightarrow> W (f y s)"
    and hit: "\<And>s. W s \<Longrightarrow> B (f x s)"
    and keep: "\<And>y s. y \<in> set xs \<Longrightarrow> W s \<Longrightarrow> B s \<Longrightarrow> B (f y s)"
  shows "B (fold f xs st0)"
proof -
  from x obtain ys zs where xs: "xs = ys @ x # zs" by (auto dest: split_list)
  have w1: "W (fold f ys st0)"
    by (rule fold_scan_invariant [where I = W, OF w0]) (use w xs in auto)
  have "W (f x (fold f ys st0)) \<and> B (f x (fold f ys st0))"
    using w [OF x w1] hit [OF w1] by simp
  then have "(\<lambda>s. W s \<and> B s) (fold f zs (f x (fold f ys st0)))"
    by (rule fold_scan_invariant [where I = "\<lambda>s. W s \<and> B s"]) (use w keep xs in auto)
  then show ?thesis by (simp add: xs)
qed

lemma try_units_ok:
  assumes "0 \<le> owing" "1 \<le> n" "n \<le> owing div d" "scan_ok st"
  shows "scan_ok (try_units frames owing change cur d n st)"
proof (cases st)
  case (Running b l)
  with assms(4) have l: "0 \<le> l" by (simp add: scan_ok_def)
  have c: "0 \<le> owing - n * d" by (rule units_fit [OF assms(1-3)])
  show ?thesis
  proof (cases "backtrack_best_change frames (owing - n * d) (dict_set d 0 change) (Some (dict_set d n cur)) b l")
    case (Inl e)
    then show ?thesis by (simp add: try_units_def Running scan_ok_def)
  next
    case (Inr r)
    obtain ns df where r: "r = (ns, df)" by (cases r)
    from backtrack_nonneg [OF c l Inr [unfolded r]] l
    show ?thesis by (simp add: try_units_def Running Inr r scan_ok_def)
  qed
qed (use assms(4) in \<open>simp_all add: try_units_def\<close>)

lemma try_units_below:
  assumes "0 \<le> m" "scan_ok st" "scan_below m st"
  shows "scan_below m (try_units frames owing change cur d n st)"
  using assms
  by (cases st) (auto simp: try_units_def scan_ok_def scan_below_def split: sum.splits prod.splits)

lemma try_denomination_ok:
  assumes "0 \<le> owing" "scan_ok st"
  shows "scan_ok (try_denomination frames owing change cur d st)"
proof (cases st)
  case (Running b0 l0)
  have "scan_ok (fold (try_units frames owing change cur d) (rev [1 .. min (owing div d) av]) (Running b0 l0))" for av
    by (rule fold_scan_invariant [where I = scan_ok])
       (use assms Running try_units_ok [OF assms(1)] in auto)
  then show ?thesis
    by (auto simp: try_denomination_def Running scan_ok_def split: option.splits)
qed (use assms(2) in \<open>simp_all add: try_denomination_def\<close>)

lemma try_denomination_below:
  assumes "0 \<le> m" "0 \<le> owing" "scan_ok st" "scan_below m st"
  shows "scan_below m (try_denomination frames owing change cur d st)"
proof (cases st)
  case (Running b0 l0)
  have "(\<lambda>s. scan_ok s \<and> scan_below m s)
          (fold (try_units frames owing change cur d) (rev [1 .. min (owing div d) av]) (Running b0 l0))" for av
    by (rule fold_scan_invariant [where I = "\<lambda>s. scan_ok s \<and> scan_below m s"])
       (use assms Running try_units_ok [OF assms(2)] try_units_below [OF assms(1)] in auto)
  then show ?thesis
    by (auto simp: try_denomination_def Running scan_below_def split: option.splits)
qed (use assms(4) in \<open>simp_all add: try_denomination_def\<close>)

lemma total_value_nonneg:
  "list_all (\<lambda>(d, n). 0 < d \<and> 0 < n \<and> n \<le> dict_default 0 change d) sel \<Longrightarrow> 0 \<le> total_value sel"
  by (induction sel) (auto simp: total_value_def)

lemma feasible_nonneg: "feasible change owing sel \<Longrightarrow> 0 \<le> owing"
  using total_value_nonneg by (fastforce simp: feasible_def)

lemma feasible_Cons:
  assumes "feasible change owing ((d, n) # sel)"
  shows "0 < d" "0 < n" "n \<le> dict_default 0 change d" "n * d \<le> owing"
    "feasible (dict_set d 0 change) (owing - n * d) sel"
proof -
  from assms have a: "d \<notin> fst ` set sel" "dict_ok sel" "0 < d" "0 < n" "n \<le> dict_default 0 change d"
    "list_all (\<lambda>(d, n). 0 < d \<and> 0 < n \<and> n \<le> dict_default 0 change d) sel"
    "n * d + total_value sel \<le> owing"
    by (auto simp: feasible_def dict_ok_def total_value_def)
  from a show "0 < d" "0 < n" "n \<le> dict_default 0 change d" by simp_all
  from total_value_nonneg [OF a(6)] a(7) show "n * d \<le> owing" by simp
  have "list_all (\<lambda>(d', n'). 0 < d' \<and> 0 < n' \<and> n' \<le> dict_default 0 (dict_set d 0 change) d') sel"
    using a(1,6) by (induction sel) auto
  with a show "feasible (dict_set d 0 change) (owing - n * d) sel"
    by (simp add: feasible_def)
qed

lemma units_le_div:
  assumes "0 < d" and "n * d \<le> (owing::int)"
  shows "n \<le> owing div d"
proof -
  have "(n * d) div d \<le> owing div d" by (rule zdiv_mono1 [OF assms(2,1)])
  with assms(1) show ?thesis by simp
qed

lemma positive_in_denominations:
  assumes "0 < dict_default 0 change d"
  shows "d \<in> set (denominations_of change)" "dict_get change d = Some (dict_default 0 change d)"
proof -
  from assms obtain q where q: "map_of change d = Some q" "0 < q" "dict_default 0 change d = q"
    by (auto simp: dict_default_def split: option.splits)
  then have "(d, q) \<in> set change" by (simp add: map_of_SomeD)
  with q show "d \<in> set (denominations_of change)" by (force simp: denominations_of_def)
  from q show "dict_get change d = Some (dict_default 0 change d)" by (simp add: dict_get_def)
qed

lemma backtrack_optimal:
  "0 \<le> lowest \<Longrightarrow> feasible change owing sel \<Longrightarrow>
   backtrack_best_change frames owing change cs best lowest = Inr (rs, diff) \<Longrightarrow>
   diff \<le> owing - total_value sel \<and> diff \<le> lowest"
proof (induction frames owing change cs best lowest arbitrary: sel rs diff rule: backtrack_best_change.induct)
  case (1 owing change cs best lowest)
  then show ?case by (simp add: backtrack_out_of_frames)
next
  case (2 frames owing change cs best lowest)
  let ?cur = "case cs of None \<Rightarrow> [] | Some s \<Rightarrow> s"
  note feas = "2.prems"(2)
  have ow: "0 \<le> owing" by (rule feasible_nonneg [OF feas])
  have tot: "total_value sel \<le> owing" "0 \<le> total_value sel"
    using feas total_value_nonneg by (auto simp: feasible_def)
  show ?case
  proof (cases "owing = 0")
    case True
    with "2.prems"(3) have "diff = 0" by (simp add: backtrack_unfold)
    with True tot "2.prems"(1) show ?thesis by simp
  next
    case False
    define st0 where
      "st0 = Running (if owing < lowest then Some ?cur else best) (if owing < lowest then owing else lowest)"
    define F where "F = fold (try_denomination frames owing change ?cur) (denominations_of change) st0"
    have fin: "finish F = Inr (rs, diff)"
      using "2.prems"(3) False by (simp add: backtrack_unfold st0_def F_def)
    have ok0: "scan_ok st0" using ow "2.prems"(1) by (simp add: st0_def scan_ok_def)
    have low: "scan_below lowest F"
    proof -
      have "(\<lambda>s. scan_ok s \<and> scan_below lowest s) F"
        unfolding F_def
        by (rule fold_scan_invariant [where I = "\<lambda>s. scan_ok s \<and> scan_below lowest s"])
           (use ok0 try_denomination_ok [OF ow] try_denomination_below [OF "2.prems"(1) ow]
             in \<open>auto simp: st0_def scan_below_def\<close>)
      then show ?thesis by simp
    qed
    have best: "scan_below (owing - total_value sel) F"
    proof (cases sel)
      case Nil
      have "(\<lambda>s. scan_ok s \<and> scan_below owing s) F"
        unfolding F_def
        by (rule fold_scan_invariant [where I = "\<lambda>s. scan_ok s \<and> scan_below owing s"])
           (use ok0 try_denomination_ok [OF ow] try_denomination_below [OF ow ow]
             in \<open>auto simp: st0_def scan_below_def\<close>)
      with Nil show ?thesis by (simp add: total_value_def)
    next
      case (Cons x sel')
      obtain d n where x: "x = (d, n)" by (cases x)
      note fc = feasible_Cons [OF feas [unfolded Cons x]]
      let ?m = "owing - total_value sel"
      have m: "0 \<le> ?m" using tot by simp
      have msel: "?m = (owing - n * d) - total_value sel'"
        by (simp add: Cons x total_value_def)
      have pos: "0 < dict_default 0 change d" using fc(2,3) by simp
      note din = positive_in_denominations [OF pos]
      have nz: "d \<noteq> 0" using fc(1) by simp
      have nin: "n \<in> set (rev [1 .. min (owing div d) (dict_default 0 change d)])"
        using fc(2,3) units_le_div [OF fc(1,4)] by simp
      have hit_n: "scan_below ?m (try_units frames owing change ?cur d n s)" if s: "scan_ok s" for s
      proof (cases s)
        case (Running b l)
        with s have l: "0 \<le> l" by (simp add: scan_ok_def)
        show ?thesis
        proof (cases "backtrack_best_change frames (owing - n * d) (dict_set d 0 change) (Some (dict_set d n ?cur)) b l")
          case (Inl e)
          then show ?thesis by (simp add: try_units_def Running scan_below_def)
        next
          case (Inr r)
          obtain ns df where r: "r = (ns, df)" by (cases r)
          have "df \<le> (owing - n * d) - total_value sel' \<and> df \<le> l"
            by (rule "2.IH" [OF refl refl refl False din(1) nz din(2) nin l fc(5) Inr [unfolded r]])
          with m msel show ?thesis
            by (auto simp: try_units_def Running Inr r scan_below_def)
        qed
      next
        case (Returned r)
        with s m show ?thesis by (auto simp: try_units_def scan_ok_def scan_below_def)
      next
        case (Raised e)
        then show ?thesis by (simp add: try_units_def scan_below_def)
      qed
      have hit_d: "scan_below ?m (try_denomination frames owing change ?cur d s)" if s: "scan_ok s" for s
      proof (cases s)
        case (Running b0 l0)
        have "scan_below ?m (fold (try_units frames owing change ?cur d)
                (rev [1 .. min (owing div d) (dict_default 0 change d)]) (Running b0 l0))"
          by (rule fold_scan_reach [where W = scan_ok and x = n, OF nin])
             (use s Running hit_n try_units_ok [OF ow] try_units_below [OF m] in auto)
        then show ?thesis by (simp add: try_denomination_def Running nz din(2))
      next
        case (Returned r)
        with s m show ?thesis by (auto simp: try_denomination_def scan_ok_def scan_below_def)
      next
        case (Raised e)
        then show ?thesis by (simp add: try_denomination_def scan_below_def)
      qed
      show ?thesis
        unfolding F_def
        by (rule fold_scan_reach [where W = scan_ok and x = d, OF din(1) ok0])
           (use hit_d try_denomination_ok [OF ow] try_denomination_below [OF m ow] in auto)
    qed
    from fin low best show ?thesis
      by (cases F) (auto simp: finish_def scan_below_def)
  qed
qed

lemma wrap_denominations_same: "wrap_denominations r = Inr c \<Longrightarrow> c = r"
  by (induction r arbitrary: c)
     (auto simp: Denomination_def split: sum.splits if_splits)

lemma wrap_denominations_valid:
  "list_all (\<lambda>(d, n). valid_denomination d) r \<Longrightarrow> wrap_denominations r = Inr r"
  by (induction r) (auto simp: valid_denomination_def)

lemma find_optimal_change_sound:
  assumes ok: "dict_ok (inventory mi)"
    and res: "find_optimal_change owed_amount mi = Inr (Some c)"
  shows "total_value (configuration c) + owed c = owed_amount"
    and "dict_ok (configuration c)"
    and "\<And>d n. (d, n) \<in> set (configuration c) \<Longrightarrow> 0 < n \<and> n \<le> dict_default 0 (inventory mi) d"
proof -
  from res obtain sol diff where
    b: "backtrack_best_change recursion_limit owed_amount (inventory mi) None None sys_maxsize = Inr (Some sol, diff)"
    and w: "wrap_denominations sol = Inr (configuration c)" and d: "owed c = diff"
    by (auto simp: find_optimal_change_def split: sum.splits option.splits)
  from wrap_denominations_same [OF w] have c: "configuration c = sol" .
  from backtrack_sound [OF ok b] c d
  show "total_value (configuration c) + owed c = owed_amount" "dict_ok (configuration c)"
    "\<And>d n. (d, n) \<in> set (configuration c) \<Longrightarrow> 0 < n \<and> n \<le> dict_default 0 (inventory mi) d"
    by auto
qed

lemma backtrack_zero:
  "0 < frames \<Longrightarrow>
   backtrack_best_change frames 0 change cs best lowest = Inr (Some (case cs of None \<Rightarrow> [] | Some s \<Rightarrow> s), 0)"
  by (cases frames) (simp_all add: backtrack_unfold)

lemma find_optimal_change_zero:
  "find_optimal_change 0 mi = Inr (Some \<lparr>owed = 0, configuration = []\<rparr>)"
  by (simp add: find_optimal_change_def backtrack_zero recursion_limit_def)

lemma sys_maxsize_pos: "0 < sys_maxsize"
  by (simp add: sys_maxsize_def)

lemma find_optimal_change_returns:
  assumes ok: "inventory_ok mi" and bound: "owed_amount < sys_maxsize"
    and depth: "length (denominations_of (inventory mi)) < recursion_limit"
  shows "\<exists>c. find_optimal_change owed_amount mi = Inr (Some c)"
proof -
  from ok have dok: "dict_ok (inventory mi)"
    and all: "list_all (\<lambda>(d, q). valid_denomination d \<and> (q \<le> 0 \<or> d \<noteq> 0)) (inventory mi)"
    by (simp_all add: inventory_ok_def)
  from all have nz: "\<forall>d q. (d, q) \<in> set (inventory mi) \<longrightarrow> 0 < q \<longrightarrow> d \<noteq> 0"
    by (auto simp: list_all_iff)
  from backtrack_no_error [OF dok nz depth] obtain rs diff where
    b: "backtrack_best_change recursion_limit owed_amount (inventory mi) None None sys_maxsize = Inr (rs, diff)"
    by (metis surj_pair)
  from backtrack_some [OF _ b] bound obtain sol where rs: "rs = Some sol" by auto
  have "list_all (\<lambda>(d, n). valid_denomination d) sol"
    unfolding list_all_iff
  proof (clarify)
    fix d n assume dn: "(d, n) \<in> set sol"
    from backtrack_sound [OF dok b [unfolded rs]] dn have "0 < dict_default 0 (inventory mi) d"
      by fastforce
    then obtain q where "map_of (inventory mi) d = Some q"
      by (auto simp: dict_default_def split: option.splits)
    then have "(d, q) \<in> set (inventory mi)" by (rule map_of_SomeD)
    with all show "valid_denomination d" by (auto simp: list_all_iff)
  qed
  from wrap_denominations_valid [OF this] b rs show ?thesis
    by (simp add: find_optimal_change_def)
qed

lemma find_optimal_change_optimal:
  assumes ok: "inventory_ok mi" and nonneg: "0 \<le> owed_amount"
    and res: "find_optimal_change owed_amount mi = Inr (Some c)"
  shows "feasible (inventory mi) owed_amount (configuration c)"
    and "owed c = owed_amount - total_value (configuration c)"
    and "\<And>sel. feasible (inventory mi) owed_amount sel \<Longrightarrow> owed c \<le> owed_amount - total_value sel"
proof -
  from ok have dok: "dict_ok (inventory mi)"
    and all: "list_all (\<lambda>(d, q). valid_denomination d \<and> (q \<le> 0 \<or> d \<noteq> 0)) (inventory mi)"
    by (simp_all add: inventory_ok_def)
  note s = find_optimal_change_sound [OF dok res]
  from res obtain sol where
    b: "backtrack_best_change recursion_limit owed_amount (inventory mi) None None sys_maxsize = Inr (Some sol, owed c)"
    by (auto simp: find_optimal_change_def split: sum.splits option.splits)
  from backtrack_nonneg [OF nonneg _ b] sys_maxsize_pos have d0: "0 \<le> owed c" by simp
  show "owed c = owed_amount - total_value (configuration c)" using s(1) by simp
  have "list_all (\<lambda>(d, n). 0 < d \<and> 0 < n \<and> n \<le> dict_default 0 (inventory mi) d) (configuration c)"
    unfolding list_all_iff
  proof (clarify)
    fix d n assume dn: "(d, n) \<in> set (configuration c)"
    from s(3) [OF dn] have n: "0 < n" "n \<le> dict_default 0 (inventory mi) d" by simp_all
    then obtain q where q: "map_of (inventory mi) d = Some q" "0 < q"
      by (auto simp: dict_default_def split: option.splits)
    then have "(d, q) \<in> set (inventory mi)" by (simp add: map_of_SomeD)
    with all q have "valid_denomination d" "d \<noteq> 0" by (auto simp: list_all_iff)
    then have "0 < d" by (auto simp: valid_denomination_def Denomination_def split: if_splits)
    with n show "0 < d \<and> 0 < n \<and> n \<le> dict_default 0 (inventory mi) d" by simp
  qed
  with s(1,2) d0 show "feasible (inventory mi) owed_amount (configuration c)"
    by (simp add: feasible_def)
  fix sel assume "feasible (inventory mi) owed_amount sel"
  from backtrack_optimal [OF _ this b] sys_maxsize_pos
  show "owed c \<le> owed_amount - total_value sel" by simp
qed

section \<open>What the change search returns\<close>

text \<open>
  Below \<open>sys.maxsize\<close> owed, with no unit of value 0 in the inventory and fewer denominations
  in stock than the interpreter allows nested calls, the search returns a configuration of
  the search space that leaves the smallest remainder (\<open>find_optimal_change_returns\<close>,
  \<open>find_optimal_change_optimal\<close>). The example of the specification is such a case: for 50
  owed and the inventory \<open>{100: 2, 200: 1}\<close> the result is the empty configuration with
  \<open>owed = 50\<close>.
\<close>

lemma change_of_50_with_large_notes:
  "find_optimal_change 50
     \<lparr>inventory = [(100, 2), (200, 1)], supported_denominantions = default_supported_denominantions\<rparr>
   = Inr (Some \<lparr>owed = 50, configuration = []\<rparr>)"
  by code_simp

text \<open>
  Outside these bounds the search ends in other ways. A unit of value 0 in the inventory
  makes it divide by zero, and a search that nests deeper than the frames it is given
  raises \<open>RecursionError\<close>: with three frames, 7 owed and one unit each of 3, 2 and 1, the
  fourth nested call is one too many.
\<close>

lemma zero_denomination_raises:
  "find_optimal_change 5 \<lparr>inventory = [(0, 1)], supported_denominantions = [0]\<rparr> = Inl ZeroDivisionError"
  by code_simp

lemma backtrack_runs_out_of_frames:
  "backtrack_best_change 3 7 [(3, 1), (2, 1), (1, 1)] None None sys_maxsize = Inl RecursionError
   \<and> backtrack_best_change 4 7 [(3, 1), (2, 1), (1, 1)] None None sys_maxsize
     = Inr (Some [(3, 1), (2, 1), (1, 1)], 1)"
  by code_simp

text \<open>
  Claim C5 says that \<open>find_optimal_change\<close> returns some configuration, never the absent
  result, for every non-negative owed amount and every inventory, the empty configuration
  with \<open>owed == owed_amount\<close> when nothing can be paid. The code returns the absent result
  for \<open>sys.maxsize\<close> owed and the empty inventory: \<open>lowest_owed\<close> starts at \<open>sys.maxsize\<close>, meant
  to lie above every amount, so the test \<open>owed < lowest_owed\<close> fails at the root, no solution
  is ever recorded, and \<open>best_solution\<close> is still \<open>None\<close> when the search is over.
\<close>

theorem find_optimal_change_absent:
  "0 \<le> sys_maxsize
   \<and> find_optimal_change sys_maxsize
        \<lparr>inventory = [], supported_denominantions = default_supported_denominantions\<rparr> = Inr None"
  by code_simp

text \<open>
  Claim C7 says that without an exact combination \<open>find_optimal_change\<close> returns the
  configuration with the smallest remainder of the whole search space. For
  \<open>sys.maxsize + 10\<close> owed and one unit of 5 in the inventory, an inventory of one valid
  denomination, the search space holds the choice of that unit, which leaves
  \<open>sys.maxsize + 5\<close>, yet the code returns the absent result: no remainder is below the
  initial \<open>lowest_owed = sys.maxsize\<close>, so none is recorded.
\<close>

theorem find_optimal_change_misses_remainder:
  "0 \<le> sys_maxsize + 10
   \<and> inventory_ok \<lparr>inventory = [(5, 1)], supported_denominantions = default_supported_denominantions\<rparr>
   \<and> feasible [(5, 1)] (sys_maxsize + 10) [(5, 1)]
   \<and> total_value [(5, 1)] = 5
   \<and> find_optimal_change (sys_maxsize + 10)
        \<lparr>inventory = [(5, 1)], supported_denominantions = default_supported_denominantions\<rparr> = Inr None"
  by code_simp

section \<open>The transaction\<close>

lemma on_enter_simps:
  "on_enter IDLE = []" "on_enter MAINTENANCE_MODE = []" "on_enter PRODUCT_SELECTION = []"
  "on_enter COLLECTING_PAYMENT = []" "on_enter CONFIRM_SMALLER_CHANGE = []"
  "on_enter DISPATCHING_PRODUCT = [Method vm_dispatch_product, Named Advance]"
  "on_enter RETURNING_CHANGE = [Method vm_return_change, Named Advance]"
  by (simp_all add: on_enter_def get_states_def)

lemma change_state_plain:
  "on_enter s = [] \<Longrightarrow> change_state f s event vm = (None, vm\<lparr>state := s\<rparr>)"
  by (simp add: change_state_def)

lemma state_vm_return_change [simp]: "state (snd (vm_return_change event vm)) = state vm"
  by (simp add: vm_return_change_def split: sum.splits option.splits prod.splits)

lemma state_vm_dispatch_product [simp]: "state (snd (vm_dispatch_product event vm)) = state vm"
  by (simp add: vm_dispatch_product_def split: sum.splits option.splits prod.splits)

lemma advance_in_returning:
  "state vm = RETURNING_CHANGE \<Longrightarrow>
   trigger_with f Advance event vm = (Inr True, vm\<lparr>state := IDLE\<rparr>)"
  by (simp add: trigger_with_def transitions_from_def get_transitions_def execute_def
      change_state_plain on_enter_simps)

lemma advance_in_dispatching:
  "state vm = DISPATCHING_PRODUCT \<Longrightarrow>
   trigger_with f Advance event vm =
     (case vm_return_change event (vm\<lparr>state := RETURNING_CHANGE\<rparr>) of
        (Some e, vm1) \<Rightarrow> (Inl e, vm1)
      | (None, vm1) \<Rightarrow>
          (case f Advance no_kwargs vm1 of
             (Inl e, vm2) \<Rightarrow> (Inl e, vm2)
           | (Inr r, vm2) \<Rightarrow> (Inr True, vm2)))"
  by (simp add: trigger_with_def transitions_from_def get_transitions_def execute_def
      change_state_def on_enter_simps split: prod.splits option.splits sum.splits)

lemma advance_elsewhere:
  "state vm \<noteq> RETURNING_CHANGE \<Longrightarrow> state vm \<noteq> DISPATCHING_PRODUCT \<Longrightarrow>
   trigger_with f Advance event vm = (Inl MachineError, vm)"
  by (simp add: trigger_with_def transitions_from_def get_transitions_def)

lemma fire_advance_returning:
  "state vm = RETURNING_CHANGE \<Longrightarrow> fire (Suc n) Advance event vm = (Inr True, vm\<lparr>state := IDLE\<rparr>)"
  by (simp add: advance_in_returning)

lemma fire_advance_dispatching:
  assumes "state vm = DISPATCHING_PRODUCT"
  shows "fire (Suc (Suc n)) Advance event vm =
     (case vm_return_change event (vm\<lparr>state := RETURNING_CHANGE\<rparr>) of
        (Some e, vm1) \<Rightarrow> (Inl e, vm1)
      | (None, vm1) \<Rightarrow> (Inr True, vm1\<lparr>state := IDLE\<rparr>))"
proof -
  obtain r vm1 where rc: "vm_return_change event (vm\<lparr>state := RETURNING_CHANGE\<rparr>) = (r, vm1)"
    by (cases "vm_return_change event (vm\<lparr>state := RETURNING_CHANGE\<rparr>)")
  have "state vm1 = RETURNING_CHANGE"
    using state_vm_return_change [of event "vm\<lparr>state := RETURNING_CHANGE\<rparr>"] rc by simp
  then have "fire (Suc n) Advance no_kwargs vm1 = (Inr True, vm1\<lparr>state := IDLE\<rparr>)"
    by (rule fire_advance_returning)
  then show ?thesis
    using assms rc by (simp add: advance_in_dispatching split: option.splits)
qed

lemma fire_advance_depth: "fire (Suc (Suc n)) Advance event vm = fire 2 Advance event vm"
proof -
  consider "state vm = RETURNING_CHANGE" | "state vm = DISPATCHING_PRODUCT"
    | "state vm \<noteq> RETURNING_CHANGE" "state vm \<noteq> DISPATCHING_PRODUCT" by blast
  then show ?thesis
  proof cases
    case 1
    then show ?thesis by (simp add: numeral_2_eq_2 advance_in_returning)
  next
    case 2
    from fire_advance_dispatching [OF 2, of n event] fire_advance_dispatching [OF 2, of 0 event]
    show ?thesis by (simp add: numeral_2_eq_2)
  next
    case 3
    then show ?thesis by (simp add: numeral_2_eq_2 advance_elsewhere)
  qed
qed

lemma named_in_table:
  "t \<in> set get_transitions \<Longrightarrow> Named tr \<in> set (before t) \<Longrightarrow> tr = Advance"
  "Named tr \<in> set (on_enter s) \<Longrightarrow> tr = Advance"
  by (auto simp: get_transitions_def on_enter_def get_states_def split: if_splits)

lemma callbacks_agree:
  "(\<And>tr event vm. Named tr \<in> set cbs \<Longrightarrow> f tr event vm = g tr event vm) \<Longrightarrow>
   callbacks f cbs event vm = callbacks g cbs event vm"
proof (induction cbs arbitrary: vm)
  case Nil
  then show ?case by simp
next
  case (Cons cb cbs)
  then show ?case by (cases cb) (auto split: prod.splits option.splits sum.splits)
qed

lemma execute_agree:
  assumes "\<And>event vm. f Advance event vm = g Advance event vm" and "t \<in> set get_transitions"
  shows "execute f t event vm = execute g t event vm"
proof -
  have b: "callbacks f (before t) event vm' = callbacks g (before t) event vm'" for vm'
    by (rule callbacks_agree) (use assms named_in_table(1) in blast)
  have e: "change_state f (dest t) event vm' = change_state g (dest t) event vm'" for vm'
    unfolding change_state_def
    by (rule callbacks_agree) (use assms named_in_table(2) in blast)
  show ?thesis unfolding execute_def b e by (rule refl)
qed

lemma process_agree:
  assumes "\<And>event vm. f Advance event vm = g Advance event vm" and "set ts \<subseteq> set get_transitions"
  shows "process f ts event vm = process g ts event vm"
  using assms(2)
  by (induction ts arbitrary: vm)
     (auto simp: execute_agree [where f = f and g = g, OF assms(1)] split: prod.splits sum.splits bool.splits)

lemma trigger_with_agree:
  assumes "\<And>event vm. f Advance event vm = g Advance event vm"
  shows "trigger_with f tr event vm = trigger_with g tr event vm"
proof -
  have "set (transitions_from tr (state vm)) \<subseteq> set get_transitions"
    by (auto simp: transitions_from_def)
  from process_agree [where f = f and g = g, OF assms this] show ?thesis
    by (cases "transitions_from tr (state vm)") (simp_all add: trigger_with_def)
qed

text \<open>Three levels of nesting are all a trigger call uses: a deeper bound gives the same result.\<close>

lemma fire_depth: "fire (Suc (Suc (Suc n))) tr event vm = call tr event vm"
proof -
  have "trigger_with (fire (Suc (Suc n))) tr event vm = trigger_with (fire 2) tr event vm"
    by (rule trigger_with_agree) (rule fire_advance_depth)
  then show ?thesis by (simp add: call_def numeral_3_eq_3 numeral_2_eq_2)
qed

lemma call_select:
  "state vm = PRODUCT_SELECTION \<Longrightarrow>
   call Select event vm =
     (Inr True, vm\<lparr>selected_product := kw_product_id event, state := COLLECTING_PAYMENT\<rparr>)"
  by (simp add: call_def numeral_3_eq_3 trigger_with_def transitions_from_def get_transitions_def
      execute_def vm_select_def change_state_plain on_enter_simps)

lemma call_insert:
  "state vm = COLLECTING_PAYMENT \<Longrightarrow>
   call Insert event vm =
     (case vm_insert event vm of
        (Some e, vm1) \<Rightarrow> (Inl e, vm1)
      | (None, vm1) \<Rightarrow> (Inr True, vm1\<lparr>state := COLLECTING_PAYMENT\<rparr>))"
  by (simp add: call_def numeral_3_eq_3 trigger_with_def transitions_from_def get_transitions_def
      execute_def change_state_plain on_enter_simps split: prod.splits option.splits)

lemma enter_dispatching:
  "change_state (fire 2) DISPATCHING_PRODUCT event vm =
     (case vm_dispatch_product event (vm\<lparr>state := DISPATCHING_PRODUCT\<rparr>) of
        (Some e, vm1) \<Rightarrow> (Some e, vm1)
      | (None, vm1) \<Rightarrow>
          (case vm_return_change no_kwargs (vm1\<lparr>state := RETURNING_CHANGE\<rparr>) of
             (Some e, vm2) \<Rightarrow> (Some e, vm2)
           | (None, vm2) \<Rightarrow> (None, vm2\<lparr>state := IDLE\<rparr>)))"
proof -
  obtain r vm1 where d: "vm_dispatch_product event (vm\<lparr>state := DISPATCHING_PRODUCT\<rparr>) = (r, vm1)"
    by (cases "vm_dispatch_product event (vm\<lparr>state := DISPATCHING_PRODUCT\<rparr>)")
  have "state vm1 = DISPATCHING_PRODUCT"
    using state_vm_dispatch_product [of event "vm\<lparr>state := DISPATCHING_PRODUCT\<rparr>"] d by simp
  from fire_advance_dispatching [OF this, of 0 no_kwargs] d show ?thesis
    by (simp add: change_state_def on_enter_simps numeral_2_eq_2 split: option.splits prod.splits)
qed

lemma call_checkout:
  assumes "state vm = COLLECTING_PAYMENT"
  shows "call Checkout event vm =
     (case vm_not_enough_money vm of
        Inl e \<Rightarrow> (Inl e, vm)
      | Inr True \<Rightarrow> (Inr True, vm)
      | Inr False \<Rightarrow>
          (case vm_can_return_exact_change vm of
             Inl e \<Rightarrow> (Inl e, vm)
           | Inr True \<Rightarrow>
               (case vm_charge_customer event vm of
                  (Some e, vm1) \<Rightarrow> (Inl e, vm1)
                | (None, vm1) \<Rightarrow>
                    (case change_state (fire 2) DISPATCHING_PRODUCT event vm1 of
                       (Some e, vm2) \<Rightarrow> (Inl e, vm2)
                     | (None, vm2) \<Rightarrow> (Inr True, vm2)))
           | Inr False \<Rightarrow> (Inr True, vm\<lparr>state := CONFIRM_SMALLER_CHANGE\<rparr>)))"
proof -
  have same: "vm\<lparr>state := COLLECTING_PAYMENT\<rparr> = vm" using assms by simp
  have ts: "transitions_from Checkout (state vm) =
     [\<lparr>trigger = Checkout, source = [COLLECTING_PAYMENT], dest = COLLECTING_PAYMENT,
       conditions = [vm_not_enough_money], before = []\<rparr>,
      \<lparr>trigger = Checkout, source = [COLLECTING_PAYMENT], dest = DISPATCHING_PRODUCT,
       conditions = [vm_can_return_exact_change], before = [Method vm_charge_customer]\<rparr>,
      \<lparr>trigger = Checkout, source = [COLLECTING_PAYMENT], dest = CONFIRM_SMALLER_CHANGE,
       conditions = [], before = []\<rparr>]"
    using assms by (simp add: transitions_from_def get_transitions_def)
  have f3: "call = trigger_with (fire 2)" by (simp add: call_def numeral_3_eq_3 numeral_2_eq_2)
  have plain: "change_state (fire 2) COLLECTING_PAYMENT event vm = (None, vm)"
    "change_state (fire 2) CONFIRM_SMALLER_CHANGE event vm = (None, vm\<lparr>state := CONFIRM_SMALLER_CHANGE\<rparr>)"
    by (simp_all add: change_state_plain on_enter_simps same)
  show ?thesis
    unfolding f3 trigger_with_def ts
    by (simp add: execute_def plain split: sum.splits bool.splits prod.splits option.splits)
qed

lemma dict_default_Cons:
  "dict_default dflt ((k, v) # d) k' = (if k' = k then v else dict_default dflt d k')"
  by (simp add: dict_default_def)

lemma remove_change_ok:
  assumes "dict_ok chg" and "list_all (\<lambda>(d, n). n \<le> dict_default 0 (inventory mi) d) chg"
  shows "\<exists>mi'. remove_change chg mi = (None, mi')
            \<and> supported_denominantions mi' = supported_denominantions mi
            \<and> (dict_ok (inventory mi) \<longrightarrow> dict_ok (inventory mi'))
            \<and> (\<forall>d. dict_default 0 (inventory mi') d = dict_default 0 (inventory mi) d - dict_default 0 chg d)"
  using assms
proof (induction chg arbitrary: mi)
  case Nil
  then show ?case by (simp add: dict_default_def)
next
  case (Cons x chg)
  obtain d n where x: "x = (d, n)" by (cases x)
  from Cons.prems x have fresh: "d \<notin> fst ` set chg" and ok: "dict_ok chg"
    and n: "n \<le> dict_default 0 (inventory mi) d"
    and rest: "list_all (\<lambda>(d, n). n \<le> dict_default 0 (inventory mi) d) chg"
    by (auto simp: dict_ok_def)
  let ?inv = "dict_touch 0 d (inventory mi)"
  let ?mi1 = "mi\<lparr>inventory := dict_set d (dict_default 0 ?inv d - n) ?inv\<rparr>"
  have "list_all (\<lambda>(d', n'). n' \<le> dict_default 0 (inventory ?mi1) d') chg"
    using rest fresh by (induction chg) auto
  from Cons.IH [OF ok this] obtain mi' where mi':
    "remove_change chg ?mi1 = (None, mi')"
    "supported_denominantions mi' = supported_denominantions mi"
    "dict_ok (inventory ?mi1) \<longrightarrow> dict_ok (inventory mi')"
    "\<forall>d'. dict_default 0 (inventory mi') d' = dict_default 0 (inventory ?mi1) d' - dict_default 0 chg d'"
    by auto
  from fresh have "map_of chg d = None" by (simp add: map_of_eq_None_iff)
  then have z: "dict_default 0 chg d = 0" by (simp add: dict_default_def)
  have t: "dict_ok (inventory mi) \<Longrightarrow> dict_ok ?inv"
    by (auto simp: dict_ok_def dict_touch_def)
  have "remove_change (x # chg) mi = (None, mi')"
    using n mi'(1) by (simp add: x Let_def)
  moreover have "\<forall>d'. dict_default 0 (inventory mi') d' = dict_default 0 (inventory mi) d' - dict_default 0 (x # chg) d'"
    using mi'(4) z by (simp add: x dict_default_Cons)
  moreover have "dict_ok (inventory mi) \<longrightarrow> dict_ok (inventory mi')"
  proof
    assume "dict_ok (inventory mi)"
    then have "dict_ok (inventory ?mi1)" using dict_ok_dict_set [OF t] by simp
    with mi'(3) show "dict_ok (inventory mi')" by blast
  qed
  ultimately show ?case using mi'(2) by blast
qed

lemma total_value_nonempty: "total_value chg \<noteq> 0 \<Longrightarrow> chg \<noteq> []"
  by (auto simp: total_value_def)

lemma vm_return_change_exact:
  assumes ok: "dict_ok (inventory (monetary_inventory vm))"
    and f: "find_optimal_change (customer_balance vm) (monetary_inventory vm) = Inr (Some c)"
    and ex: "owed c = 0"
  shows "\<exists>mi'. vm_return_change event vm =
           (None, if customer_balance vm = 0 then vm
                  else vm\<lparr>monetary_inventory := mi',
                          delivery_system := delivery_system vm @ [send_cash c]\<rparr>)
        \<and> (customer_balance vm = 0 \<longleftrightarrow> configuration c = [])
        \<and> (\<forall>d. dict_default 0 (inventory mi') d
               = dict_default 0 (inventory (monetary_inventory vm)) d - dict_default 0 (configuration c) d)"
proof -
  note s = find_optimal_change_sound [OF ok f]
  from s(1) ex have tv: "total_value (configuration c) = customer_balance vm" by simp
  show ?thesis
  proof (cases "customer_balance vm = 0")
    case True
    with f have "c = \<lparr>owed = 0, configuration = []\<rparr>" by (simp add: find_optimal_change_zero)
    with True show ?thesis
      by (intro exI [of _ "monetary_inventory vm"]) (simp add: vm_return_change_def dict_default_def)
  next
    case False
    with tv have ne: "configuration c \<noteq> []" using total_value_nonempty by metis
    have "list_all (\<lambda>(d, n). n \<le> dict_default 0 (inventory (monetary_inventory vm)) d) (configuration c)"
      using s(3) by (auto simp: list_all_iff)
    from remove_change_ok [OF s(2) this] obtain mi' where mi':
      "remove_change (configuration c) (monetary_inventory vm) = (None, mi')"
      "\<forall>d. dict_default 0 (inventory mi') d
           = dict_default 0 (inventory (monetary_inventory vm)) d - dict_default 0 (configuration c) d"
      by blast
    with False ne f show ?thesis
      by (intro exI [of _ mi']) (simp add: vm_return_change_def)
  qed
qed

lemma checkout_to_idle:
  assumes st: "state vm = COLLECTING_PAYMENT"
    and ok: "dict_ok (inventory (monetary_inventory vm))"
    and co: "call Checkout event vm = (Inr r, vm')"
    and idle: "state vm' = IDLE"
  shows "\<exists>p info unit c.
           selected_product vm = Some p
         \<and> dict_get (catalogue (stock vm)) p = Some info
         \<and> price info \<le> customer_balance vm
         \<and> find_optimal_change (customer_balance vm - price info) (monetary_inventory vm) = Inr (Some c)
         \<and> owed c = 0
         \<and> customer_balance vm' = customer_balance vm - price info
         \<and> (\<forall>d. dict_default 0 (inventory (monetary_inventory vm')) d
                = dict_default 0 (inventory (monetary_inventory vm)) d - dict_default 0 (configuration c) d)
         \<and> delivery_system vm' =
             delivery_system vm @ dispatch unit # (if configuration c = [] then [] else [send_cash c])"
proof -
  note cc = co [unfolded call_checkout [OF st]]
  from cc st idle have g1: "vm_not_enough_money vm = Inr False"
    by (auto split: sum.splits bool.splits)
  with cc st idle have g2: "vm_can_return_exact_change vm = Inr True"
    by (auto split: sum.splits bool.splits)
  from g1 obtain p tp where p: "selected_product vm = Some p" "get_price_of p (stock vm) = Inr tp"
    "tp \<le> customer_balance vm"
    by (auto simp: vm_not_enough_money_def split: option.splits sum.splits)
  from p(2) obtain info where info: "dict_get (catalogue (stock vm)) p = Some info" "tp = price info"
    by (auto simp: get_price_of_def split: option.splits)
  from g2 p obtain c where c: "find_optimal_change (customer_balance vm - tp) (monetary_inventory vm) = Inr (Some c)"
    "owed c = 0"
    by (auto simp: vm_can_return_exact_change_def is_exact_def split: option.splits sum.splits)
  define vm1 where "vm1 = vm\<lparr>customer_balance := customer_balance vm - tp\<rparr>"
  have ch: "vm_charge_customer event vm = (None, vm1)"
    using p by (simp add: vm_charge_customer_def vm1_def)
  from cc g1 g2 ch have en: "(case change_state (fire 2) DISPATCHING_PRODUCT event vm1 of
                       (Some e, vm2) \<Rightarrow> (Inl e, vm2)
                     | (None, vm2) \<Rightarrow> (Inr True, vm2)) = (Inr r, vm')"
    by simp
  then have en': "change_state (fire 2) DISPATCHING_PRODUCT event vm1 = (None, vm')"
    by (auto split: prod.splits option.splits)
  obtain gp s where gp: "get_product p (stock vm) = (gp, s)" by (cases "get_product p (stock vm)")
  have "\<exists>unit. gp = Inr unit"
  proof (cases gp)
    case (Inl e)
    with en' gp p show ?thesis
      by (simp add: enter_dispatching vm_dispatch_product_def vm1_def)
  qed simp
  then obtain unit where unit: "gp = Inr unit" ..
  define vm2 where "vm2 = vm1\<lparr>state := RETURNING_CHANGE, stock := s, selected_product := None,
                              delivery_system := delivery_system vm @ [dispatch unit]\<rparr>"
  have dp: "vm_dispatch_product event (vm1\<lparr>state := DISPATCHING_PRODUCT\<rparr>)
            = (None, vm2\<lparr>state := DISPATCHING_PRODUCT\<rparr>)"
    using gp unit p by (simp add: vm_dispatch_product_def vm1_def vm2_def)
  have ok2: "dict_ok (inventory (monetary_inventory vm2))" using ok by (simp add: vm2_def vm1_def)
  have f2: "find_optimal_change (customer_balance vm2) (monetary_inventory vm2) = Inr (Some c)"
    using c(1) by (simp add: vm2_def vm1_def)
  from vm_return_change_exact [OF ok2 f2 c(2), of no_kwargs] obtain mi' where rc:
    "vm_return_change no_kwargs vm2 =
       (None, if customer_balance vm2 = 0 then vm2
              else vm2\<lparr>monetary_inventory := mi', delivery_system := delivery_system vm2 @ [send_cash c]\<rparr>)"
    "customer_balance vm2 = 0 \<longleftrightarrow> configuration c = []"
    "\<forall>d. dict_default 0 (inventory mi') d
         = dict_default 0 (inventory (monetary_inventory vm2)) d - dict_default 0 (configuration c) d"
    by blast
  have same: "vm2\<lparr>state := DISPATCHING_PRODUCT, state := RETURNING_CHANGE\<rparr> = vm2"
    by (simp add: vm2_def)
  from en' dp rc(1) have vm': "vm' = (if customer_balance vm2 = 0 then vm2
              else vm2\<lparr>monetary_inventory := mi', delivery_system := delivery_system vm2 @ [send_cash c]\<rparr>)
              \<lparr>state := IDLE\<rparr>"
    by (simp add: enter_dispatching same)
  show ?thesis
  proof (cases "customer_balance vm2 = 0")
    case True
    with rc(2) have e: "configuration c = []" by simp
    with vm' True p info c show ?thesis
      by (simp add: vm2_def vm1_def dict_default_def)
  next
    case False
    with rc(2) have e: "configuration c \<noteq> []" by simp
    with vm' False p info c rc(3) show ?thesis
      by (simp add: vm2_def vm1_def)
  qed
qed

lemma vm_insert_ok:
  assumes "vm_insert (denomination_kw v) vm = (None, vm1)"
  shows "vm1 = vm\<lparr>customer_balance := customer_balance vm + v,
                  monetary_inventory := (monetary_inventory vm)\<lparr>inventory :=
                    dict_set v (dict_default 0 (inventory (monetary_inventory vm)) v + 1)
                      (inventory (monetary_inventory vm))\<rparr>\<rparr>"
  using assms
  by (auto simp: vm_insert_def denomination_kw_def no_kwargs_def Denomination_def add_monetary_unit_def
      Let_def split: if_splits)

lemma calls_inserts:
  assumes "state vm = COLLECTING_PAYMENT"
    and "calls (map (\<lambda>d. (Insert, denomination_kw d)) coins @ rest) vm = (None, vm')"
  shows "\<exists>vm1. calls rest vm1 = (None, vm')
          \<and> state vm1 = COLLECTING_PAYMENT
          \<and> selected_product vm1 = selected_product vm
          \<and> stock vm1 = stock vm
          \<and> delivery_system vm1 = delivery_system vm
          \<and> customer_balance vm1 = customer_balance vm + sum_list coins
          \<and> (dict_ok (inventory (monetary_inventory vm)) \<longrightarrow> dict_ok (inventory (monetary_inventory vm1)))
          \<and> (\<forall>d. dict_default 0 (inventory (monetary_inventory vm1)) d
                 = dict_default 0 (inventory (monetary_inventory vm)) d + int (count_list coins d))"
  using assms
proof (induction coins arbitrary: vm)
  case Nil
  then show ?case by auto
next
  case (Cons v coins)
  obtain r vm1 where ins: "vm_insert (denomination_kw v) vm = (r, vm1)"
    by (cases "vm_insert (denomination_kw v) vm")
  from Cons.prems ins have r: "r = None"
    and rest: "calls (map (\<lambda>d. (Insert, denomination_kw d)) coins @ rest) (vm1\<lparr>state := COLLECTING_PAYMENT\<rparr>) = (None, vm')"
    by (auto simp: call_insert split: option.splits)
  note vm1 = vm_insert_ok [OF ins [unfolded r]]
  have st1: "vm1\<lparr>state := COLLECTING_PAYMENT\<rparr> = vm1" using Cons.prems(1) by (simp add: vm1)
  have s: "state vm1 = COLLECTING_PAYMENT" using Cons.prems(1) by (simp add: vm1)
  from Cons.IH [OF s rest [unfolded st1]] obtain vm2 where vm2:
    "calls rest vm2 = (None, vm')" "state vm2 = COLLECTING_PAYMENT"
    "selected_product vm2 = selected_product vm1" "stock vm2 = stock vm1"
    "delivery_system vm2 = delivery_system vm1"
    "customer_balance vm2 = customer_balance vm1 + sum_list coins"
    "dict_ok (inventory (monetary_inventory vm1)) \<longrightarrow> dict_ok (inventory (monetary_inventory vm2))"
    "\<forall>d. dict_default 0 (inventory (monetary_inventory vm2)) d
         = dict_default 0 (inventory (monetary_inventory vm1)) d + int (count_list coins d)"
    by blast
  have "dict_ok (inventory (monetary_inventory vm)) \<longrightarrow> dict_ok (inventory (monetary_inventory vm2))"
  proof
    assume "dict_ok (inventory (monetary_inventory vm))"
    then have "dict_ok (inventory (monetary_inventory vm1))"
      by (simp add: vm1 dict_ok_dict_set)
    with vm2(7) show "dict_ok (inventory (monetary_inventory vm2))" by blast
  qed
  moreover have "\<forall>d. dict_default 0 (inventory (monetary_inventory vm2)) d
         = dict_default 0 (inventory (monetary_inventory vm)) d + int (count_list (v # coins) d)"
    using vm2(8) by (auto simp: vm1)
  ultimately show ?case
    using vm2(1-6) by (intro exI [of _ vm2]) (simp add: vm1)
qed

lemma backtrack_exact_some:
  assumes "lowest \<noteq> 0 \<or> best \<noteq> None"
    and res: "backtrack_best_change frames owed_amount change cs best lowest = Inr (rs, 0)"
  shows "rs \<noteq> None"
proof -
  have "(\<lambda>b (l::int). l = 0 \<longrightarrow> b \<noteq> None) rs 0"
    by (rule backtrack_invariant [where Node = "\<lambda>owing chg cur. True"
          and Best = "\<lambda>b l. l = 0 \<longrightarrow> b \<noteq> None", OF _ _ _ _ res])
       (use assms in auto)
  then show ?thesis by simp
qed

lemma wrap_of_solution:
  assumes ok: "inventory_ok mi"
    and b: "backtrack_best_change recursion_limit owed_amount (inventory mi) None None lowest = Inr (Some sol, diff)"
  shows "wrap_denominations sol = Inr sol"
proof -
  from ok have dok: "dict_ok (inventory mi)"
    and all: "list_all (\<lambda>(d, q). valid_denomination d \<and> (q \<le> 0 \<or> d \<noteq> 0)) (inventory mi)"
    by (simp_all add: inventory_ok_def)
  have "list_all (\<lambda>(d, n). valid_denomination d) sol"
    unfolding list_all_iff
  proof (clarify)
    fix d n assume dn: "(d, n) \<in> set sol"
    from backtrack_sound [OF dok b] dn have "0 < dict_default 0 (inventory mi) d"
      by fastforce
    then obtain q where "map_of (inventory mi) d = Some q"
      by (auto simp: dict_default_def split: option.splits)
    then have "(d, q) \<in> set (inventory mi)" by (rule map_of_SomeD)
    with all show "valid_denomination d" by (auto simp: list_all_iff)
  qed
  then show ?thesis by (rule wrap_denominations_valid)
qed

text \<open>
  With no unit of value 0 in the inventory, and fewer denominations in stock than the
  interpreter allows nested calls, the search finds an exact configuration precisely when
  the search space holds a choice that pays out the owed amount.
\<close>

lemma exact_change_iff:
  assumes ok: "inventory_ok mi" and nonneg: "0 \<le> owed_amount"
    and depth: "length (denominations_of (inventory mi)) < recursion_limit"
  shows "(\<exists>c. find_optimal_change owed_amount mi = Inr (Some c) \<and> owed c = 0)
     \<longleftrightarrow> (\<exists>sel. feasible (inventory mi) owed_amount sel \<and> total_value sel = owed_amount)"
proof
  assume "\<exists>c. find_optimal_change owed_amount mi = Inr (Some c) \<and> owed c = 0"
  then obtain c where c: "find_optimal_change owed_amount mi = Inr (Some c)" "owed c = 0" by blast
  from find_optimal_change_optimal(1,2) [OF ok nonneg c(1)] c(2)
  show "\<exists>sel. feasible (inventory mi) owed_amount sel \<and> total_value sel = owed_amount"
    by (intro exI [of _ "configuration c"]) simp
next
  assume "\<exists>sel. feasible (inventory mi) owed_amount sel \<and> total_value sel = owed_amount"
  then obtain sel where sel: "feasible (inventory mi) owed_amount sel" "total_value sel = owed_amount"
    by blast
  from ok have dok: "dict_ok (inventory mi)"
    and all: "list_all (\<lambda>(d, q). valid_denomination d \<and> (q \<le> 0 \<or> d \<noteq> 0)) (inventory mi)"
    by (simp_all add: inventory_ok_def)
  from all have nz: "\<forall>d q. (d, q) \<in> set (inventory mi) \<longrightarrow> 0 < q \<longrightarrow> d \<noteq> 0"
    by (auto simp: list_all_iff)
  from backtrack_no_error [OF dok nz depth] obtain rs diff where
    b: "backtrack_best_change recursion_limit owed_amount (inventory mi) None None sys_maxsize = Inr (rs, diff)"
    by (metis surj_pair)
  from backtrack_optimal [OF _ sel(1) b] sel(2) sys_maxsize_pos have "diff \<le> 0" by simp
  moreover from backtrack_nonneg [OF nonneg _ b] sys_maxsize_pos have "0 \<le> diff" by simp
  ultimately have d0: "diff = 0" by simp
  from backtrack_exact_some [OF _ b [unfolded d0]] sys_maxsize_pos obtain sol where rs: "rs = Some sol"
    by auto
  from wrap_of_solution [OF ok b [unfolded rs]] b rs d0
  have "find_optimal_change owed_amount mi = Inr (Some \<lparr>owed = 0, configuration = sol\<rparr>)"
    by (simp add: find_optimal_change_def)
  then show "\<exists>c. find_optimal_change owed_amount mi = Inr (Some c) \<and> owed c = 0" by simp
qed

lemma checkout_cases:
  assumes "state vm = COLLECTING_PAYMENT" and "selected_product vm = Some p"
    and "dict_get (catalogue (stock vm)) p = Some info"
  shows "call Checkout event vm =
     (if customer_balance vm < price info then (Inr True, vm)
      else
        (case find_optimal_change (customer_balance vm - price info) (monetary_inventory vm) of
           Inl e \<Rightarrow> (Inl e, vm)
         | Inr None \<Rightarrow> (Inr True, vm\<lparr>state := CONFIRM_SMALLER_CHANGE\<rparr>)
         | Inr (Some c) \<Rightarrow>
             if owed c = 0
             then (case change_state (fire 2) DISPATCHING_PRODUCT event
                          (vm\<lparr>customer_balance := customer_balance vm - price info\<rparr>) of
                     (Some e, vm2) \<Rightarrow> (Inl e, vm2)
                   | (None, vm2) \<Rightarrow> (Inr True, vm2))
             else (Inr True, vm\<lparr>state := CONFIRM_SMALLER_CHANGE\<rparr>)))"
  using assms
  by (simp add: call_checkout vm_not_enough_money_def vm_can_return_exact_change_def get_price_of_def
      vm_charge_customer_def is_exact_def split: sum.splits option.splits)

text \<open>
  The three candidates of \<open>checkout\<close>, for a machine whose inventory holds no unit of value
  0 and fewer denominations in stock than the interpreter allows nested calls: too little
  money, an exact configuration in the search space, or neither.
\<close>

lemma checkout_three_candidates:
  assumes "state vm = COLLECTING_PAYMENT" and "selected_product vm = Some p"
    and "dict_get (catalogue (stock vm)) p = Some info"
    and "inventory_ok (monetary_inventory vm)"
    and "length (denominations_of (inventory (monetary_inventory vm))) < recursion_limit"
  shows "call Checkout event vm =
     (if customer_balance vm < price info then (Inr True, vm)
      else if \<exists>sel. feasible (inventory (monetary_inventory vm)) (customer_balance vm - price info) sel
                   \<and> total_value sel = customer_balance vm - price info
      then (case change_state (fire 2) DISPATCHING_PRODUCT event
                    (vm\<lparr>customer_balance := customer_balance vm - price info\<rparr>) of
               (Some e, vm2) \<Rightarrow> (Inl e, vm2)
             | (None, vm2) \<Rightarrow> (Inr True, vm2))
      else (Inr True, vm\<lparr>state := CONFIRM_SMALLER_CHANGE\<rparr>))"
proof (cases "customer_balance vm < price info")
  case True
  then show ?thesis by (simp add: checkout_cases [OF assms(1-3)])
next
  case False
  let ?a = "customer_balance vm - price info"
  from False have a: "0 \<le> ?a" by simp
  note iff = exact_change_iff [OF assms(4) a assms(5)]
  from assms(4) have dok: "dict_ok (inventory (monetary_inventory vm))"
    and all: "list_all (\<lambda>(d, q). valid_denomination d \<and> (q \<le> 0 \<or> d \<noteq> 0)) (inventory (monetary_inventory vm))"
    by (simp_all add: inventory_ok_def)
  from all have nz: "\<forall>d q. (d, q) \<in> set (inventory (monetary_inventory vm)) \<longrightarrow> 0 < q \<longrightarrow> d \<noteq> 0"
    by (auto simp: list_all_iff)
  from backtrack_no_error [OF dok nz assms(5)] obtain rs diff where
    b: "backtrack_best_change recursion_limit ?a (inventory (monetary_inventory vm)) None None sys_maxsize = Inr (rs, diff)"
    by (metis surj_pair)
  have "\<exists>r. find_optimal_change ?a (monetary_inventory vm) = Inr r"
  proof (cases rs)
    case None
    with b show ?thesis by (simp add: find_optimal_change_def)
  next
    case (Some sol)
    from wrap_of_solution [OF assms(4) b [unfolded Some]] b Some show ?thesis
      by (simp add: find_optimal_change_def)
  qed
  then obtain r where r: "find_optimal_change ?a (monetary_inventory vm) = Inr r" ..
  show ?thesis
  proof (cases "\<exists>c. r = Some c \<and> owed c = 0")
    case True
    with iff r False show ?thesis
      by (auto simp: checkout_cases [OF assms(1-3)])
  next
    case nex: False
    with iff r have "\<not> (\<exists>sel. feasible (inventory (monetary_inventory vm)) ?a sel \<and> total_value sel = ?a)"
      by auto
    with nex r False show ?thesis
      by (cases r) (auto simp: checkout_cases [OF assms(1-3)])
  qed
qed

text \<open>
  Claim C3. Take a machine in \<open>PRODUCT_SELECTION\<close> (its inventory a dict) and the calls
  \<open>select\<close>, one \<open>insert\<close> per coin, \<open>checkout\<close>, none of which raises and which leave the
  machine in \<open>IDLE\<close>: \<open>checkout\<close> then took the exact-change candidate, the only one that
  leads there. Then the balance held once the product is dispatched, which is the balance
  before plus the coins minus the price and is the balance the machine ends with, equals
  the value of the change \<open>chg\<close> taken out of the inventory, and for every denomination the
  count before the transaction is the count after it plus the change dispensed minus the
  coins inserted. The delivery system has received the product and, unless the change is
  empty, the exact configuration \<open>chg\<close>.
\<close>

theorem exact_change_round_trip:
  assumes "state vm = PRODUCT_SELECTION"
    and "dict_ok (inventory (monetary_inventory vm))"
    and "calls ((Select, product_id_kw p) # map (\<lambda>d. (Insert, denomination_kw d)) coins
                @ [(Checkout, no_kwargs)]) vm = (None, vm')"
    and "state vm' = IDLE"
  shows "\<exists>info unit chg.
           dict_get (catalogue (stock vm)) p = Some info
         \<and> customer_balance vm' = customer_balance vm + sum_list coins - price info
         \<and> dict_ok chg
         \<and> total_value chg = customer_balance vm'
         \<and> (\<forall>d. dict_default 0 (inventory (monetary_inventory vm)) d
                = dict_default 0 (inventory (monetary_inventory vm')) d
                  + dict_default 0 chg d - int (count_list coins d))
         \<and> delivery_system vm' =
             delivery_system vm @ dispatch unit
               # (if chg = [] then [] else [send_cash \<lparr>owed = 0, configuration = chg\<rparr>])"
proof -
  define vm0 where "vm0 = vm\<lparr>selected_product := Some p, state := COLLECTING_PAYMENT\<rparr>"
  from assms(1,3) have run: "calls (map (\<lambda>d. (Insert, denomination_kw d)) coins @ [(Checkout, no_kwargs)]) vm0
                            = (None, vm')"
    by (simp add: call_select product_id_kw_def no_kwargs_def vm0_def)
  have s0: "state vm0 = COLLECTING_PAYMENT" by (simp add: vm0_def)
  from calls_inserts [OF s0 run] assms(2) obtain vm1 where vm1:
    "calls [(Checkout, no_kwargs)] vm1 = (None, vm')" "state vm1 = COLLECTING_PAYMENT"
    "selected_product vm1 = Some p" "stock vm1 = stock vm"
    "delivery_system vm1 = delivery_system vm"
    "customer_balance vm1 = customer_balance vm + sum_list coins"
    "dict_ok (inventory (monetary_inventory vm1))"
    "\<forall>d. dict_default 0 (inventory (monetary_inventory vm1)) d
         = dict_default 0 (inventory (monetary_inventory vm)) d + int (count_list coins d)"
    by (auto simp: vm0_def)
  from vm1(1) obtain r where co: "call Checkout no_kwargs vm1 = (Inr r, vm')"
    by (auto split: prod.splits sum.splits)
  from checkout_to_idle [OF vm1(2,7) co assms(4)] vm1(3) obtain info unit c where c:
    "dict_get (catalogue (stock vm1)) p = Some info"
    "find_optimal_change (customer_balance vm1 - price info) (monetary_inventory vm1) = Inr (Some c)"
    "owed c = 0"
    "customer_balance vm' = customer_balance vm1 - price info"
    "\<forall>d. dict_default 0 (inventory (monetary_inventory vm')) d
         = dict_default 0 (inventory (monetary_inventory vm1)) d - dict_default 0 (configuration c) d"
    "delivery_system vm' =
       delivery_system vm1 @ dispatch unit # (if configuration c = [] then [] else [send_cash c])"
    by auto
  note s = find_optimal_change_sound [OF vm1(7) c(2)]
  have cfg: "c = \<lparr>owed = 0, configuration = configuration c\<rparr>" using c(3) by simp
  have "total_value (configuration c) = customer_balance vm'" using s(1) c(3,4) by simp
  moreover have "\<forall>d. dict_default 0 (inventory (monetary_inventory vm)) d
                = dict_default 0 (inventory (monetary_inventory vm')) d
                  + dict_default 0 (configuration c) d - int (count_list coins d)"
    using c(5) vm1(8) by simp
  moreover have "delivery_system vm' =
             delivery_system vm @ dispatch unit
               # (if configuration c = [] then [] else [send_cash \<lparr>owed = 0, configuration = configuration c\<rparr>])"
    using c(6) vm1(5) cfg by simp
  ultimately show ?thesis
    using c(1,4) vm1(4,6) s(2) by (intro exI [of _ info] exI [of _ unit] exI [of _ "configuration c"]) simp
qed

theorem exact_change_round_trip_witness:
  "state (machine_in PRODUCT_SELECTION) = PRODUCT_SELECTION
   \<and> dict_ok (inventory (monetary_inventory (machine_in PRODUCT_SELECTION)))
   \<and> fst (calls ((Select, product_id_kw 2) # map (\<lambda>d. (Insert, denomination_kw d)) [200]
                @ [(Checkout, no_kwargs)]) (machine_in PRODUCT_SELECTION)) = None
   \<and> state after_purchase = IDLE
   \<and> (\<exists>info unit chg.
           dict_get (catalogue (stock (machine_in PRODUCT_SELECTION))) 2 = Some info
         \<and> customer_balance after_purchase
             = customer_balance (machine_in PRODUCT_SELECTION) + sum_list [200] - price info
         \<and> dict_ok chg
         \<and> total_value chg = customer_balance after_purchase
         \<and> (\<forall>d. dict_default 0 (inventory (monetary_inventory (machine_in PRODUCT_SELECTION))) d
                = dict_default 0 (inventory (monetary_inventory after_purchase)) d
                  + dict_default 0 chg d - int (count_list [200] d))
         \<and> delivery_system after_purchase =
             delivery_system (machine_in PRODUCT_SELECTION) @ dispatch unit
               # (if chg = [] then [] else [send_cash \<lparr>owed = 0, configuration = chg\<rparr>]))"
proof -
  let ?vm = "machine_in PRODUCT_SELECTION"
  let ?seq = "(Select, product_id_kw 2) # map (\<lambda>d. (Insert, denomination_kw d)) [200] @ [(Checkout, no_kwargs)]"
  have h1: "state ?vm = PRODUCT_SELECTION" by code_simp
  have h2: "dict_ok (inventory (monetary_inventory ?vm))" by code_simp
  have h3: "calls ?seq ?vm = (None, after_purchase)" by code_simp
  have h4: "state after_purchase = IDLE" by code_simp
  from exact_change_round_trip [OF h1 h2 h3 h4] h1 h2 h3 h4 show ?thesis by simp
qed

text \<open>
  Claim C2 says that in \<open>COLLECTING_PAYMENT\<close>, for a selected product with a catalogue entry
  and a unit in stock, \<open>checkout\<close> stays when the balance is below the price, otherwise
  charges and dispatches when an exact change configuration exists, and otherwise goes
  to \<open>CONFIRM_SMALLER_CHANGE\<close>. \<open>checkout_three_candidates\<close> shows this for every inventory
  without a unit of value 0. The constructor of \<open>Denomination\<close> accepts 0, though, and with
  such a unit in the inventory the change search divides by it: on a machine that supports
  the values 200 and 0 and holds one unit of value 0, after selecting product 2 (price 100)
  and inserting 200, no exact change for 100 exists and \<open>checkout\<close> raises
  \<open>ZeroDivisionError\<close>, the machine staying in \<open>COLLECTING_PAYMENT\<close>.
\<close>

theorem checkout_raises_on_zero_coin:
  "Denomination 0 = Inr 0
   \<and> MonetaryInventory_init [(0, 1)] (Some [200, 0]) = Inr (monetary_inventory zero_coin_machine)
   \<and> state paying_with_zero_coin = COLLECTING_PAYMENT
   \<and> selected_product paying_with_zero_coin = Some 2
   \<and> get_price_of 2 (stock paying_with_zero_coin) = Inr 100
   \<and> dict_default [] (products (stock paying_with_zero_coin)) 2 = [Product 2]
   \<and> customer_balance paying_with_zero_coin = 200
   \<and> inventory (monetary_inventory paying_with_zero_coin) = [(0, 1), (200, 1)]
   \<and> call Checkout no_kwargs paying_with_zero_coin = (Inl ZeroDivisionError, paying_with_zero_coin)"
  by code_simp

end
